theory Spec2Isabelle
  imports Main "HOL-Library.Word" "HOL-Library.Monad_Syntax"
begin

section \<open>Display format: the layout solver of \<open>use_display_format\<close>\<close>

text \<open>
  \<open>format_item_t\<close> of panel.c, restricted to the fields the solver reads and writes.
  C \<open>int\<close> values are modelled as unbounded integers: every quantity below is bounded
  by a terminal width or by a width written in a format string.
\<close>

record format_item_t =
  requested_field_len :: int
  field_len :: int
  expand :: bool

definition MAX_EXPAND :: int where
  "MAX_EXPAND = 4"

text \<open>
  C integer division truncates toward zero (\<open>tdiv\<close>); division by zero is undefined
  behaviour, which \<open>c_div\<close> reports as \<open>None\<close>.
\<close>

definition tdiv :: "int \<Rightarrow> int \<Rightarrow> int" where
  "tdiv a b = sgn a * sgn b * (\<bar>a\<bar> div \<bar>b\<bar>)"

definition c_div :: "int \<Rightarrow> int \<Rightarrow> int option" where
  "c_div a b = (if b = 0 then None else Some (tdiv a b))"

text \<open>
  \<open>parse_display_format\<close> allocates every item with \<open>g_new0\<close> (so \<open>field_len\<close> starts
  at 0) and returns in \<open>total_cols\<close> the sum of the requested widths.
\<close>

definition parsed :: "format_item_t list \<Rightarrow> int \<Rightarrow> bool" where
  "parsed home total_cols \<longleftrightarrow>
     list_all (\<lambda>fi. field_len fi = 0) home \<and>
     total_cols = sum_list (map requested_field_len home)"

text \<open>The usable columns: \<open>cols - 2\<close>, split between the list columns unless \<open>isstatus\<close>.\<close>

definition usable_columns_of :: "int \<Rightarrow> int \<Rightarrow> bool \<Rightarrow> int option" where
  "usable_columns_of cols list_cols isstatus =
     (if isstatus then Some (cols - 2)
      else case c_div (cols - 2) list_cols of
             None \<Rightarrow> None
           | Some u \<Rightarrow> Some (if list_cols > 1 then u - 1 else u))"

text \<open>
  First loop: \<open>for (darr = home; darr != NULL && expand_top < MAX_EXPAND; ...)\<close> seeds
  \<open>field_len\<close> from the requested width and counts the expandable fields. It stops as
  soon as \<open>expand_top\<close> reaches \<open>MAX_EXPAND\<close>; the items behind are left as they are.
\<close>

fun seed_fields :: "format_item_t list \<Rightarrow> int \<Rightarrow> format_item_t list \<times> int" where
  "seed_fields [] expand_top = ([], expand_top)"
| "seed_fields (fi # darr) expand_top =
     (if expand_top < MAX_EXPAND then
        (case seed_fields darr (if expand fi then expand_top + 1 else expand_top) of
           (darr', e) \<Rightarrow> (fi\<lparr>field_len := requested_field_len fi\<rparr> # darr', e))
      else (fi # darr, expand_top))"

text \<open>
  One pass of the inner \<open>for\<close> loop of the shrinking step: every item whose width is not 1
  loses one column while \<open>dif\<close> is not 0. \<open>dif\<close> is positive when the loop is entered
  (\<open>total_cols > usable_columns\<close>) and is never decremented at 0, hence a natural number.
\<close>

fun shrink_pass :: "format_item_t list \<Rightarrow> nat \<Rightarrow> format_item_t list \<times> nat" where
  "shrink_pass [] dif = ([], dif)"
| "shrink_pass (fi # darr) dif =
     (if dif \<noteq> 0 \<and> field_len fi \<noteq> 1 then
        (case shrink_pass darr (dif - 1) of
           (darr', d) \<Rightarrow> (fi\<lparr>field_len := field_len fi - 1\<rparr> # darr', d))
      else
        (case shrink_pass darr dif of (darr', d) \<Rightarrow> (fi # darr', d)))"

lemma shrink_pass_le: "snd (shrink_pass home dif) \<le> dif"
proof (induction home arbitrary: dif)
  case Nil
  show ?case by simp
next
  case (Cons fi darr)
  have a: "snd (shrink_pass darr (dif - 1)) \<le> dif - 1" by (rule Cons.IH)
  have b: "snd (shrink_pass darr dif) \<le> dif" by (rule Cons.IH)
  from a b show ?case by (auto split: prod.splits)
qed

text \<open>\<open>while (dif != 0 && pdif != dif) { pdif = dif; <pass> }\<close>\<close>

function shrink_loop :: "format_item_t list \<Rightarrow> nat \<Rightarrow> nat \<Rightarrow> format_item_t list" where
  "shrink_loop home dif pdif =
     (if dif \<noteq> 0 \<and> pdif \<noteq> dif then
        shrink_loop (fst (shrink_pass home dif)) (snd (shrink_pass home dif)) dif
      else home)"
  by pat_completeness auto
termination
proof (relation "measure (\<lambda>(home, dif, pdif). dif + (if pdif \<noteq> dif then 1 else 0))", goal_cases)
  case 1
  show ?case by simp
next
  case (2 home dif pdif)
  have "snd (shrink_pass home dif) \<le> dif" by (rule shrink_pass_le)
  then show ?case using 2 by auto
qed

declare shrink_loop.simps [simp del]

text \<open>
  Expansion loop: \<open>for (i = 0, darr = home; darr != NULL && i < expand_top; ...)\<close>; each
  expandable item gains \<open>spaces\<close>, the one met at \<open>i == 0\<close> also the remainder.
\<close>

fun expand_fields :: "format_item_t list \<Rightarrow> int \<Rightarrow> int \<Rightarrow> int \<Rightarrow> int \<Rightarrow> format_item_t list" where
  "expand_fields [] i expand_top spaces rest = []"
| "expand_fields (fi # darr) i expand_top spaces rest =
     (if i < expand_top then
        (if expand fi then
           fi\<lparr>field_len := field_len fi + spaces + (if i = 0 then rest else 0)\<rparr>
             # expand_fields darr (i + 1) expand_top spaces rest
         else fi # expand_fields darr i expand_top spaces rest)
      else fi # darr)"

text \<open>
  The solver: everything \<open>use_display_format\<close> does after \<open>parse_display_format\<close> has
  returned \<open>home\<close> and \<open>total_cols\<close> and \<open>usable_columns\<close> has been computed.
\<close>

definition solve_layout :: "format_item_t list \<Rightarrow> int \<Rightarrow> int \<Rightarrow> format_item_t list" where
  "solve_layout home total_cols usable_columns =
     (case seed_fields home 0 of
        (seeded, expand_top) \<Rightarrow>
          let shrunk = (if total_cols > usable_columns
                        then shrink_loop seeded (nat (total_cols - usable_columns)) 0
                        else seeded);
              total_cols' = (if total_cols > usable_columns then usable_columns else total_cols)
          in if usable_columns > total_cols' \<and> expand_top \<noteq> 0
             then expand_fields shrunk 0 expand_top
                    ((usable_columns - total_cols') div expand_top)
                    ((usable_columns - total_cols') mod expand_top)
             else shrunk)"

definition use_display_format ::
  "int \<Rightarrow> int \<Rightarrow> bool \<Rightarrow> format_item_t list \<Rightarrow> int \<Rightarrow> format_item_t list option" where
  "use_display_format cols list_cols isstatus home total_cols =
     map_option (solve_layout home total_cols) (usable_columns_of cols list_cols isstatus)"

definition expandables :: "format_item_t list \<Rightarrow> int" where
  "expandables home = int (length (filter expand home))"

lemma expandables_simps [simp]:
  "expandables [] = 0"
  "expandables (fi # darr) = (if expand fi then 1 else 0) + expandables darr"
  by (simp_all add: expandables_def)

lemma expandables_nonneg: "0 \<le> expandables home"
  by (simp add: expandables_def)

lemma fst_seed_fields_Cons:
  "fst (seed_fields (fi # darr) e) =
     (if e < MAX_EXPAND
      then fi\<lparr>field_len := requested_field_len fi\<rparr>
             # fst (seed_fields darr (if expand fi then e + 1 else e))
      else fi # darr)"
  by (simp split: prod.splits)

lemma snd_seed_fields_Cons:
  "snd (seed_fields (fi # darr) e) =
     (if e < MAX_EXPAND then snd (seed_fields darr (if expand fi then e + 1 else e)) else e)"
  by (simp split: prod.splits)

declare seed_fields.simps(2) [simp del]

lemma seed_fields_length: "length (fst (seed_fields home e)) = length home"
  by (induction home arbitrary: e) (simp_all add: fst_seed_fields_Cons)

lemma seed_fields_expand: "map expand (fst (seed_fields home e)) = map expand home"
  by (induction home arbitrary: e) (simp_all add: fst_seed_fields_Cons)

lemma seed_fields_top:
  "e \<le> MAX_EXPAND \<Longrightarrow> snd (seed_fields home e) = min MAX_EXPAND (e + expandables home)"
proof (induction home arbitrary: e)
  case Nil
  then show ?case by simp
next
  case (Cons fi darr)
  show ?case
  proof (cases "e < MAX_EXPAND")
    case True
    let ?e' = "if expand fi then e + 1 else e"
    have "?e' \<le> MAX_EXPAND" using True by simp
    then have "snd (seed_fields darr ?e') = min MAX_EXPAND (?e' + expandables darr)"
      by (rule Cons.IH)
    then show ?thesis using True
      by (auto simp: snd_seed_fields_Cons)
  next
    case False
    then have "e = MAX_EXPAND" using Cons.prems by simp
    then show ?thesis using expandables_nonneg [of "fi # darr"]
      by (simp add: snd_seed_fields_Cons del: expandables_simps)
  qed
qed

lemma seed_fields_nth:
  "k < length home \<Longrightarrow> e + expandables (take k home) < MAX_EXPAND \<Longrightarrow>
   fst (seed_fields home e) ! k = (home ! k)\<lparr>field_len := requested_field_len (home ! k)\<rparr>"
proof (induction home arbitrary: e k)
  case Nil
  then show ?case by simp
next
  case (Cons fi darr)
  have e: "e < MAX_EXPAND"
    using Cons.prems(2) expandables_nonneg [of "take k (fi # darr)"] by linarith
  show ?case
  proof (cases k)
    case 0
    then show ?thesis using e by (simp add: fst_seed_fields_Cons)
  next
    case (Suc j)
    let ?e' = "if expand fi then e + 1 else e"
    have "j < length darr" using Cons.prems(1) Suc by simp
    moreover have "?e' + expandables (take j darr) < MAX_EXPAND"
      using Cons.prems(2) Suc by (simp split: if_splits)
    ultimately have "fst (seed_fields darr ?e') ! j
        = (darr ! j)\<lparr>field_len := requested_field_len (darr ! j)\<rparr>"
      by (rule Cons.IH)
    then show ?thesis using e Suc by (simp add: fst_seed_fields_Cons)
  qed
qed

lemma expand_fields_length: "length (expand_fields xs i et sp r) = length xs"
  by (induction xs arbitrary: i) auto

lemma expand_fields_nth:
  "k < length xs \<Longrightarrow>
   field_len (expand_fields xs i et sp r ! k) =
     field_len (xs ! k) +
       (if expand (xs ! k) \<and> i + expandables (take k xs) < et
        then sp + (if i + expandables (take k xs) = 0 then r else 0) else 0)"
proof (induction xs arbitrary: i k)
  case Nil
  then show ?case by simp
next
  case (Cons fi darr)
  show ?case
  proof (cases k)
    case 0
    then show ?thesis by simp
  next
    case (Suc j)
    then have j: "j < length darr" using Cons.prems by simp
    note ih1 = Cons.IH [OF j, of "i + 1"] and ih2 = Cons.IH [OF j, of i]
    show ?thesis
    proof (cases "i < et")
      case True
      then show ?thesis using Suc ih1 ih2 by (simp add: add.assoc add.commute)
    next
      case False
      then have "\<not> i + expandables (take k (fi # darr)) < et"
        using expandables_nonneg [of "take k (fi # darr)"] by linarith
      then show ?thesis using False by simp
    qed
  qed
qed


lemma fst_shrink_pass_Cons:
  "fst (shrink_pass (fi # darr) dif) =
     (if dif \<noteq> 0 \<and> field_len fi \<noteq> 1
      then fi\<lparr>field_len := field_len fi - 1\<rparr> # fst (shrink_pass darr (dif - 1))
      else fi # fst (shrink_pass darr dif))"
  by (simp split: prod.splits)

lemma snd_shrink_pass_Cons:
  "snd (shrink_pass (fi # darr) dif) =
     (if dif \<noteq> 0 \<and> field_len fi \<noteq> 1
      then snd (shrink_pass darr (dif - 1)) else snd (shrink_pass darr dif))"
  by (simp split: prod.splits)

lemmas shrink_pass_Cons = fst_shrink_pass_Cons snd_shrink_pass_Cons

declare shrink_pass.simps(2) [simp del]

definition widths :: "format_item_t list \<Rightarrow> int list" where
  "widths home = map field_len home"

lemma widths_simps [simp]:
  "widths [] = []" "widths (fi # darr) = field_len fi # widths darr"
  by (simp_all add: widths_def)

definition all_eq1 :: "format_item_t list \<Rightarrow> bool" where
  "all_eq1 home \<longleftrightarrow> (\<forall>fi \<in> set home. field_len fi = 1)"

lemma shrink_pass_sum:
  "sum_list (widths (fst (shrink_pass home dif))) + int dif
     = sum_list (widths home) + int (snd (shrink_pass home dif))"
proof (induction home arbitrary: dif)
  case Nil
  show ?case by simp
next
  case (Cons fi darr)
  note a = Cons.IH [of "dif - 1"] and b = Cons.IH [of dif]
  show ?case using a b
    by (cases "dif = 0") (auto simp: shrink_pass_Cons)
qed

lemma shrink_pass_stuck:
  "snd (shrink_pass home dif) = dif \<Longrightarrow> dif \<noteq> 0 \<Longrightarrow> all_eq1 (fst (shrink_pass home dif))"
proof (induction home arbitrary: dif)
  case Nil
  show ?case by (simp add: all_eq1_def)
next
  case (Cons fi darr)
  show ?case
  proof (cases "field_len fi \<noteq> 1")
    case True
    have "snd (shrink_pass darr (dif - 1)) \<le> dif - 1" by (rule shrink_pass_le)
    then have "snd (shrink_pass (fi # darr) dif) < dif"
      using True Cons.prems(2) by (simp add: shrink_pass_Cons)
    then show ?thesis using Cons.prems(1) by simp
  next
    case False
    then have "snd (shrink_pass darr dif) = dif"
      using Cons.prems(1) by (simp add: shrink_pass_Cons)
    then have "all_eq1 (fst (shrink_pass darr dif))" using Cons.prems(2) by (rule Cons.IH)
    then show ?thesis using False
      by (simp add: all_eq1_def shrink_pass_Cons)
  qed
qed

lemma all_eq1_sum: "all_eq1 home \<Longrightarrow> sum_list (widths home) = int (length home)"
  by (induction home) (auto simp: all_eq1_def)

lemma shrink_loop_length: "length (shrink_loop home dif pdif) = length home"
proof (induction home dif pdif rule: shrink_loop.induct)
  case (1 home dif pdif)
  have l: "\<And>h d. length (fst (shrink_pass h d)) = length h"
    subgoal for h d
      by (induction h arbitrary: d) (simp_all add: shrink_pass_Cons)
    done
  show ?case using 1 l by (subst shrink_loop.simps) auto
qed

lemma expand_fields_sum:
  "0 \<le> i \<Longrightarrow> i \<le> et \<Longrightarrow> et - i \<le> expandables xs \<Longrightarrow>
   sum_list (widths (expand_fields xs i et sp r))
     = sum_list (widths xs) + sp * (et - i) + (if i = 0 \<and> i < et then r else 0)"
proof (induction xs arbitrary: i)
  case Nil
  then show ?case by simp
next
  case (Cons fi darr)
  show ?case
  proof (cases "i < et")
    case True
    show ?thesis
    proof (cases "expand fi")
      case e: True
      have "sum_list (widths (expand_fields darr (i + 1) et sp r))
         = sum_list (widths darr) + sp * (et - (i + 1)) + (if i + 1 = 0 \<and> i + 1 < et then r else 0)"
        using Cons.prems True e by (intro Cons.IH) auto
      then show ?thesis using True e Cons.prems(1) by (simp add: algebra_simps)
    next
      case e: False
      have "sum_list (widths (expand_fields darr i et sp r))
         = sum_list (widths darr) + sp * (et - i) + (if i = 0 \<and> i < et then r else 0)"
        using Cons.prems True e by (intro Cons.IH) auto
      then show ?thesis using True e by simp
    qed
  next
    case False
    then have "i = et" using Cons.prems by simp
    then show ?thesis by (simp add: widths_def)
  qed
qed

lemma expandables_flags: "expandables home = int (length (filter (\<lambda>b. b) (map expand home)))"
  by (induction home) simp_all

lemma seed_fields_sum:
  "\<forall>fi \<in> set home. field_len fi = 0 \<and> 0 \<le> requested_field_len fi \<Longrightarrow>
   sum_list (widths (fst (seed_fields home e))) \<le> sum_list (map requested_field_len home)"
proof (induction home arbitrary: e)
  case Nil
  show ?case by simp
next
  case (Cons fi darr)
  have ih: "sum_list (widths (fst (seed_fields darr (if expand fi then e + 1 else e))))
      \<le> sum_list (map requested_field_len darr)"
    using Cons.prems by (intro Cons.IH) simp
  have z: "sum_list (widths darr) = 0" using Cons.prems by (induction darr) simp_all
  have nn: "0 \<le> sum_list (map requested_field_len darr)"
    using Cons.prems by (intro sum_list_nonneg) auto
  show ?case using ih z nn Cons.prems by (simp add: fst_seed_fields_Cons)
qed

lemma shrink_loop_sum:
  "(pdif = dif \<and> dif \<noteq> 0 \<longrightarrow> all_eq1 home) \<Longrightarrow>
   sum_list (widths (shrink_loop home dif pdif)) + int dif = sum_list (widths home)
    \<or> all_eq1 (shrink_loop home dif pdif)"
proof (induction home dif pdif rule: shrink_loop.induct)
  case (1 home dif pdif)
  show ?case
  proof (cases "dif \<noteq> 0 \<and> pdif \<noteq> dif")
    case True
    let ?h = "fst (shrink_pass home dif)" and ?d = "snd (shrink_pass home dif)"
    have s: "dif = ?d \<and> ?d \<noteq> 0 \<longrightarrow> all_eq1 ?h"
      using shrink_pass_stuck [of home dif] by auto
    have ih: "sum_list (widths (shrink_loop ?h ?d dif)) + int ?d = sum_list (widths ?h)
        \<or> all_eq1 (shrink_loop ?h ?d dif)"
      using "1.IH" [OF True s] .
    have eq: "shrink_loop home dif pdif = shrink_loop ?h ?d dif"
      using True by (subst shrink_loop.simps) simp
    show ?thesis using ih shrink_pass_sum [of home dif] unfolding eq by auto
  next
    case False
    then have eq: "shrink_loop home dif pdif = home"
      by (subst shrink_loop.simps) auto
    show ?thesis using False "1.prems" unfolding eq by auto
  qed
qed

lemma shrink_pass_length: "length (fst (shrink_pass h d)) = length h"
  by (induction h arbitrary: d) (simp_all add: shrink_pass_Cons)

lemma shrink_pass_nth_ge1:
  "k < length home \<Longrightarrow> 1 \<le> field_len (home ! k) \<Longrightarrow>
   1 \<le> field_len (fst (shrink_pass home dif) ! k)"
proof (induction home arbitrary: dif k)
  case Nil
  then show ?case by simp
next
  case (Cons fi darr)
  show ?case
  proof (cases k)
    case 0
    then show ?thesis using Cons.prems by (simp add: shrink_pass_Cons)
  next
    case (Suc j)
    then have j: "j < length darr" "1 \<le> field_len (darr ! j)" using Cons.prems by simp_all
    note a = Cons.IH [OF j, of "dif - 1"] and b = Cons.IH [OF j, of dif]
    show ?thesis using a b Suc by (simp add: shrink_pass_Cons)
  qed
qed

lemma shrink_loop_nth_ge1:
  "k < length home \<Longrightarrow> 1 \<le> field_len (home ! k) \<Longrightarrow>
   1 \<le> field_len (shrink_loop home dif pdif ! k)"
proof (induction home dif pdif rule: shrink_loop.induct)
  case (1 home dif pdif)
  show ?case
  proof (cases "dif \<noteq> 0 \<and> pdif \<noteq> dif")
    case True
    let ?h = "fst (shrink_pass home dif)" and ?d = "snd (shrink_pass home dif)"
    have k: "k < length ?h" using "1.prems"(1) by (simp add: shrink_pass_length)
    have g: "1 \<le> field_len (?h ! k)" using "1.prems" by (rule shrink_pass_nth_ge1)
    have eq: "shrink_loop home dif pdif = shrink_loop ?h ?d dif"
      using True by (subst shrink_loop.simps) simp
    show ?thesis unfolding eq using "1.IH" [OF True k g] .
  next
    case False
    then have eq: "shrink_loop home dif pdif = home"
      by (subst shrink_loop.simps) auto
    show ?thesis using "1.prems" unfolding eq by simp
  qed
qed

text \<open>
  Claim C1, as amended. A compiled column set is what \<open>parse_display_format\<close> returns:
  every \<open>field_len\<close> is 0, \<open>total_cols\<close> is the sum of the requested widths, and every
  requested width is non-negative (a field's \<open>min_size\<close> or the digits after \<open>:\<close>). For every
  such column set and every usable width that is at least the number of columns, the final
  widths sum to at most the usable width; and every column whose requested width is at
  least 1 and which has fewer than four expandable columns before it (so that the first
  loop seeds it) ends with a width of at least 1.
\<close>

theorem layout_solver_fits:
  assumes par: "parsed home total_cols"
    and req: "\<forall>fi \<in> set home. 0 \<le> requested_field_len fi"
    and wide: "int (length home) \<le> usable"
  shows "sum_list (map field_len (solve_layout home total_cols usable)) \<le> usable \<and>
         (\<forall>k < length home.
            1 \<le> requested_field_len (home ! k) \<and> length (filter expand (take k home)) < 4 \<longrightarrow>
            1 \<le> field_len (solve_layout home total_cols usable ! k))"
proof -
  let ?sd = "fst (seed_fields home 0)" and ?et = "min 4 (expandables home)"
  have tot: "total_cols = sum_list (map requested_field_len home)"
    and fresh: "\<forall>fi \<in> set home. field_len fi = 0"
    using par by (simp_all add: parsed_def list_all_iff)
  have top: "snd (seed_fields home 0) = ?et"
    using seed_fields_top [of 0 home] by (simp add: MAX_EXPAND_def)
  have w: "sum_list (widths ?sd) \<le> total_cols"
    unfolding tot using fresh req by (intro seed_fields_sum) simp
  have len: "length ?sd = length home" by (rule seed_fields_length)
  have sum: "sum_list (widths (solve_layout home total_cols usable)) \<le> usable"
  proof (cases "total_cols > usable")
    case True
    let ?sh = "shrink_loop ?sd (nat (total_cols - usable)) 0"
    have eq: "solve_layout home total_cols usable = ?sh"
      using True by (simp add: solve_layout_def case_prod_beta top)
    have r: "sum_list (widths ?sh) + int (nat (total_cols - usable)) = sum_list (widths ?sd)
        \<or> all_eq1 ?sh"
      using True by (intro shrink_loop_sum) simp
    have "sum_list (widths ?sh) \<le> usable"
    proof (cases "all_eq1 ?sh")
      case a: True
      then have "sum_list (widths ?sh) = int (length ?sh)" by (rule all_eq1_sum)
      then show ?thesis using wide by (simp add: shrink_loop_length len)
    next
      case False
      then have "sum_list (widths ?sh) + int (nat (total_cols - usable)) = sum_list (widths ?sd)"
        using r by simp
      then show ?thesis using True w by simp
    qed
    then show ?thesis unfolding eq .
  next
    case False
    show ?thesis
    proof (cases "usable > total_cols \<and> ?et \<noteq> 0")
      case e: True
      let ?S = "usable - total_cols"
      let ?ex = "expand_fields ?sd 0 ?et (?S div ?et) (?S mod ?et)"
      have eq: "solve_layout home total_cols usable = ?ex"
        using False e by (simp add: solve_layout_def case_prod_beta top)
      have et: "0 < ?et" using e expandables_nonneg [of home] by auto
      have ex: "expandables ?sd = expandables home"
        using seed_fields_expand [of home 0] by (simp add: expandables_flags)
      have "sum_list (widths ?ex)
          = sum_list (widths ?sd) + (?S div ?et) * (?et - 0)
            + (if (0::int) = 0 \<and> 0 < ?et then ?S mod ?et else 0)"
        using et by (intro expand_fields_sum) (simp_all add: ex)
      then have "sum_list (widths ?ex) = sum_list (widths ?sd) + ((?S div ?et) * ?et + ?S mod ?et)"
        using et by simp
      moreover have "(?S div ?et) * ?et + ?S mod ?et = ?S" by (rule div_mult_mod_eq)
      ultimately show ?thesis using w unfolding eq by linarith
    next
      case e: False
      then have eq: "solve_layout home total_cols usable = ?sd"
        using False by (auto simp: solve_layout_def case_prod_beta top)
      show ?thesis using False w unfolding eq by simp
    qed
  qed
  have each: "1 \<le> field_len (solve_layout home total_cols usable ! k)"
    if k: "k < length home" and r1: "1 \<le> requested_field_len (home ! k)"
      and pre: "length (filter expand (take k home)) < 4" for k
  proof -
    have c: "expandables (take k home) < 4" using pre by (simp add: expandables_def)
    have nth: "?sd ! k = (home ! k)\<lparr>field_len := requested_field_len (home ! k)\<rparr>"
      using k c by (intro seed_fields_nth) (simp_all add: MAX_EXPAND_def)
    have kk: "k < length ?sd" using k by (simp add: len)
    have g: "1 \<le> field_len (?sd ! k)" using r1 by (simp add: nth)
    show ?thesis
    proof (cases "total_cols > usable")
      case True
      have eq: "solve_layout home total_cols usable
          = shrink_loop ?sd (nat (total_cols - usable)) 0"
        using True by (simp add: solve_layout_def case_prod_beta top)
      show ?thesis unfolding eq using kk g by (rule shrink_loop_nth_ge1)
    next
      case False
      show ?thesis
      proof (cases "usable > total_cols \<and> ?et \<noteq> 0")
        case e: True
        let ?S = "usable - total_cols"
        have eq: "solve_layout home total_cols usable
            = expand_fields ?sd 0 ?et (?S div ?et) (?S mod ?et)"
          using False e by (simp add: solve_layout_def case_prod_beta top)
        have et: "0 < ?et" using e expandables_nonneg [of home] by auto
        have "0 \<le> ?S div ?et" using e et by (simp add: pos_imp_zdiv_nonneg_iff)
        moreover have "0 \<le> ?S mod ?et" using et by simp
        ultimately show ?thesis
          unfolding eq using expand_fields_nth [OF kk, of 0 ?et "?S div ?et" "?S mod ?et"] g
          by (simp split: if_splits)
      next
        case e: False
        then have eq: "solve_layout home total_cols usable = ?sd"
          using False by (auto simp: solve_layout_def case_prod_beta top)
        show ?thesis unfolding eq using g .
      qed
    qed
  qed
  show ?thesis using sum each by (simp add: widths_def)
qed

text \<open>A freshly parsed item: \<open>g_new0\<close> leaves \<open>field_len\<close> at 0.\<close>

definition item :: "int \<Rightarrow> bool \<Rightarrow> format_item_t" where
  "item w e = \<lparr>requested_field_len = w, field_len = 0, expand = e\<rparr>"

lemmas layout_eval = solve_layout_def seed_fields.simps shrink_pass.simps shrink_loop.simps
  MAX_EXPAND_def item_def

theorem layout_solver_fits_witness:
  "parsed [item 12 True, item 7 False, item 0 False, item 7 False] 26 \<and>
   list_all (\<lambda>fi. 0 \<le> requested_field_len fi)
     [item 12 True, item 7 False, item 0 False, item 7 False] \<and>
   int (length [item 12 True, item 7 False, item 0 False, item 7 False]) \<le> 20 \<and>
   map field_len (solve_layout [item 12 True, item 7 False, item 0 False, item 7 False] 26 20)
     = [10, 5, - 1, 6] \<and>
   sum_list (map field_len
     (solve_layout [item 12 True, item 7 False, item 0 False, item 7 False] 26 20)) \<le> 20 \<and>
   1 \<le> field_len (solve_layout [item 12 True, item 7 False, item 0 False, item 7 False] 26 20 ! 0) \<and>
   1 \<le> field_len (solve_layout [item 12 True, item 7 False, item 0 False, item 7 False] 26 20 ! 1) \<and>
   1 \<le> field_len (solve_layout [item 12 True, item 7 False, item 0 False, item 7 False] 26 20 ! 3)"
  using layout_solver_fits [of "[item 12 True, item 7 False, item 0 False, item 7 False]" 26 20]
  by (simp add: layout_eval parsed_def)

text \<open>
  Claim C1 as stated fails in its second half only. A column requested with width 0
  (\<open>name:0\<close>) keeps width 0; and a column behind the fourth expandable one is never seeded,
  so it starts from width 0 and the shrinking loop, which only spares width 1, drives it
  below zero. In both runs the sum of the final widths stays within the usable width.
\<close>

theorem layout_solver_fits_counterexample:
  "parsed [item 0 False, item 3 False] 3 \<and> int (length [item 0 False, item 3 False]) \<le> 5 \<and>
   map field_len (solve_layout [item 0 False, item 3 False] 3 5) = [0, 3] \<and>
   parsed [item 1 True, item 1 True, item 1 True, item 1 True, item 7 False] 11 \<and>
   int (length [item 1 True, item 1 True, item 1 True, item 1 True, item 7 False]) \<le> 5 \<and>
   map field_len (solve_layout [item 1 True, item 1 True, item 1 True, item 1 True, item 7 False] 11 5)
     = [1, 1, 1, 1, - 6]"
  by (simp add: layout_eval parsed_def)


lemma expandables_take_cong:
  "map expand xs = map expand ys \<Longrightarrow> expandables (take k xs) = expandables (take k ys)"
  by (simp add: expandables_flags take_map [symmetric])

lemma expandables_split:
  "k < length home \<Longrightarrow>
   expandables home = expandables (take k home) + (if expand (home ! k) then 1 else 0)
      + expandables (drop (Suc k) home)"
proof -
  assume "k < length home"
  then have "home = take k home @ home ! k # drop (Suc k) home"
    by (simp add: id_take_nth_drop)
  then have "expandables home = expandables (take k home @ home ! k # drop (Suc k) home)"
    by simp
  then show ?thesis by (simp add: expandables_def)
qed

text \<open>
  Claim C2, as amended. Let the usable width exceed the total requested width by
  \<open>S = usable - total_cols\<close>, and let the column set have at least one expandable column.
  The solver counts \<open>E = min 4 (number of expandable columns)\<close>. Every column \<open>k\<close> that
  has fewer than four expandable columns before it ends with its requested width, plus
  \<open>S div E\<close> if it is expandable, plus \<open>S mod E\<close> if it is the first expandable one.
\<close>

theorem expansion_shares:
  assumes tot: "total_cols = sum_list (map requested_field_len home)"
    and surplus: "total_cols < usable"
    and some: "filter expand home \<noteq> []"
    and k: "k < length home"
    and pre: "length (filter expand (take k home)) < 4"
  shows "field_len (solve_layout home total_cols usable ! k) =
           requested_field_len (home ! k) +
           (if expand (home ! k)
            then (usable - total_cols) div min 4 (int (length (filter expand home))) +
                 (if filter expand (take k home) = []
                  then (usable - total_cols) mod min 4 (int (length (filter expand home)))
                  else 0)
            else 0)"
proof -
  let ?sd = "fst (seed_fields home 0)" and ?et = "min 4 (expandables home)"
  let ?S = "usable - total_cols"
  have top: "snd (seed_fields home 0) = ?et"
    using seed_fields_top [of 0 home] by (simp add: MAX_EXPAND_def)
  have pos: "0 < expandables home"
    using some by (simp add: expandables_def)
  then have et: "?et \<noteq> 0" by simp
  have eq: "solve_layout home total_cols usable
      = expand_fields ?sd 0 ?et (?S div ?et) (?S mod ?et)"
    using surplus et by (simp add: solve_layout_def case_prod_beta top)
  have c: "expandables (take k home) < 4" using pre by (simp add: expandables_def)
  have nth: "?sd ! k = (home ! k)\<lparr>field_len := requested_field_len (home ! k)\<rparr>"
    using k c by (intro seed_fields_nth) (simp_all add: MAX_EXPAND_def)
  have tk: "expandables (take k ?sd) = expandables (take k home)"
    by (rule expandables_take_cong) (rule seed_fields_expand)
  have kk: "k < length ?sd" using k by (simp add: seed_fields_length)
  have lt: "expand (home ! k) \<Longrightarrow> expandables (take k home) < ?et"
    using expandables_split [OF k] expandables_nonneg [of "drop (Suc k) home"] c by simp
  have z: "(expandables (take k home) = 0) = (filter expand (take k home) = [])"
    by (simp add: expandables_def)
  show ?thesis
    unfolding eq using expand_fields_nth [OF kk, of 0 ?et "?S div ?et" "?S mod ?et"] lt z
    by (simp add: nth tk) (simp add: expandables_def)
qed

theorem expansion_shares_witness:
  "field_len (solve_layout [item 12 True, item 7 False, item 7 True] 26 31 ! 0) = 12 + (5 div 2 + 5 mod 2) \<and>
   field_len (solve_layout [item 12 True, item 7 False, item 7 True] 26 31 ! 1) = 7 \<and>
   field_len (solve_layout [item 12 True, item 7 False, item 7 True] 26 31 ! 2) = 7 + 5 div 2"
  using expansion_shares [of 26 "[item 12 True, item 7 False, item 7 True]" 31 0]
    expansion_shares [of 26 "[item 12 True, item 7 False, item 7 True]" 31 1]
    expansion_shares [of 26 "[item 12 True, item 7 False, item 7 True]" 31 2]
  by (simp add: item_def)

text \<open>
  Claim C2 as stated fails with five expandable columns of width 1 and usable width 10:
  \<open>S = 5\<close> and \<open>E = 5\<close> would give every column width 2, but the solver divides by 4
  and never reaches the fifth column.
\<close>

theorem expansion_shares_counterexample:
  "parsed [item 1 True, item 1 True, item 1 True, item 1 True, item 1 True] 5 \<and>
   map field_len (solve_layout [item 1 True, item 1 True, item 1 True, item 1 True, item 1 True] 5 10)
     = [3, 2, 2, 2, 0] \<and>
   [3, 2, 2, 2, 0] \<noteq> [1 + ((10 - 5) div 5 + (10 - 5) mod 5), 1 + (10 - 5) div 5,
      1 + (10 - 5) div 5, 1 + (10 - 5) div 5, 1 + (10 - 5) div (5::int)]"
  by (simp add: layout_eval parsed_def)

section \<open>Navigation: selection and viewport\<close>

text \<open>
  The fields of \<open>WPanel\<close> the navigation functions read and write: the widget's
  \<open>lines\<close>, \<open>list_cols\<close>, \<open>dir.len\<close>, \<open>selected\<close>, \<open>top_file\<close>, \<open>dirty\<close> and
  \<open>max_shift\<close>. Painting (\<open>repaint_file\<close>, \<open>unselect_item\<close>) writes to the terminal only
  and is left out; it reads \<open>dir.list[selected]\<close>, which is in range under the invariant
  below.
\<close>

record nav_panel =
  wlines :: int
  list_cols :: int
  dir_len :: int
  selected :: int
  top_file :: int
  dirty :: int
  max_shift :: int

text \<open>
  What the navigation code reads from \<open>panels_options\<close> and from the tab bar:
  \<open>tabs_visible\<close> is the value of \<open>TABS_VISIBLE (p)\<close>, \<open>bar_top\<close> that of
  \<open>tabs_options.bar_position == TOP\<close>.
\<close>

record nav_options =
  show_mini_info :: bool
  tabs_visible :: bool
  bar_top :: bool
  scroll_pages :: bool
  scroll_center :: bool
  torben_fj_mode :: bool

definition TABS_UP_VLINES :: int where
  "TABS_UP_VLINES = 3"

definition TABS_BOTTOM_VLINES :: int where
  "TABS_BOTTOM_VLINES = 2"

text \<open>\<open>TABS_UP (p)\<close> is \<open>bar_position == TOP && TABS_VISIBLE (p)\<close>.\<close>

definition panel_lines :: "nav_options \<Rightarrow> nav_panel \<Rightarrow> int" where
  "panel_lines opt p =
     wlines p - 3 - (if show_mini_info opt then 2 else 0)
       - (if tabs_visible opt
          then (if bar_top opt \<and> tabs_visible opt then TABS_UP_VLINES else TABS_BOTTOM_VLINES)
          else 0)"

definition panel_items :: "nav_options \<Rightarrow> nav_panel \<Rightarrow> int" where
  "panel_items opt p = panel_lines opt p * list_cols p"

text \<open>glib's \<open>CLAMP (x, low, high)\<close>: \<open>x > high ? high : (x < low ? low : x)\<close>.\<close>

definition CLAMP :: "int \<Rightarrow> int \<Rightarrow> int \<Rightarrow> int" where
  "CLAMP x low high = (if x > high then high else if x < low then low else x)"

definition adjust_top_file :: "nav_options \<Rightarrow> nav_panel \<Rightarrow> nav_panel" where
  "adjust_top_file opt p0 =
     (let p = p0\<lparr>selected := CLAMP (selected p0) 0 (dir_len p0 - 1)\<rparr>;
          items = panel_items opt p
      in if dir_len p \<le> items then p\<lparr>top_file := 0\<rparr>
         else
           let t1 = (if top_file p < 0 then 0 else top_file p);
               t2 = (if t1 < selected p - items + 1 then selected p - items + 1 else t1);
               t3 = (if t2 > dir_len p - items then dir_len p - items else t2);
               t4 = (if t3 > selected p then selected p else t3)
           in p\<lparr>top_file := t4\<rparr>)"

text \<open>\<open>select_item\<close>: adjust, set \<open>dirty\<close>; the select-file hooks are outside the panel.\<close>

definition select_item :: "nav_options \<Rightarrow> nav_panel \<Rightarrow> nav_panel" where
  "select_item opt p = (adjust_top_file opt p)\<lparr>dirty := 1\<rparr>"

text \<open>\<open>paint_dir\<close> resets \<open>max_shift\<close> and repaints.\<close>

definition paint_dir :: "nav_panel \<Rightarrow> nav_panel" where
  "paint_dir p = p\<lparr>max_shift := - 1\<rparr>"

text \<open>
  \<open>panel_selected_at_half\<close> divides by \<open>panel_lines\<close> when there are several list
  columns; a zero divisor is undefined behaviour, \<open>None\<close> here.
\<close>

definition panel_selected_at_half :: "nav_options \<Rightarrow> nav_panel \<Rightarrow> int option" where
  "panel_selected_at_half opt p =
     (let lines = panel_lines opt p; top = top_file p in
      if list_cols p > 1 then
        (case c_div (selected p - top) lines of
           None \<Rightarrow> None
         | Some q \<Rightarrow> Some (selected p - (top + lines * q) - tdiv lines 2))
      else Some (selected p - top - tdiv lines 2))"

definition move_down :: "nav_options \<Rightarrow> nav_panel \<Rightarrow> nav_panel option" where
  "move_down opt p0 =
     (if selected p0 + 1 = dir_len p0 then Some p0
      else
        let p = p0\<lparr>selected := selected p0 + 1\<rparr>;
            items = panel_items opt p
        in if scroll_pages opt \<and> selected p - top_file p = items then
             let t = top_file p + tdiv items 2;
                 t' = (if t > dir_len p - items then dir_len p - items else t)
             in Some (select_item opt (paint_dir (p\<lparr>top_file := t'\<rparr>)))
           else if scroll_center opt then
             (case panel_selected_at_half opt p of
                None \<Rightarrow> None
              | Some h \<Rightarrow>
                  if h > 0 then
                    let t = top_file p + 1;
                        t' = (if t > dir_len p - items then dir_len p - items else t)
                    in Some (select_item opt (p\<lparr>top_file := t'\<rparr>))
                  else Some (select_item opt p))
           else Some (select_item opt p))"

definition move_up :: "nav_options \<Rightarrow> nav_panel \<Rightarrow> nav_panel option" where
  "move_up opt p0 =
     (if selected p0 = 0 then Some p0
      else
        let p = p0\<lparr>selected := selected p0 - 1\<rparr>
        in if scroll_pages opt \<and> selected p < top_file p then
             let t = top_file p - tdiv (panel_items opt p) 2;
                 t' = (if t < 0 then 0 else t)
             in Some (select_item opt (paint_dir (p\<lparr>top_file := t'\<rparr>)))
           else if scroll_center opt then
             (case panel_selected_at_half opt p of
                None \<Rightarrow> None
              | Some h \<Rightarrow>
                  if h < 0 then
                    let t = top_file p - 1;
                        t' = (if t < 0 then 0 else t)
                    in Some (select_item opt (p\<lparr>top_file := t'\<rparr>))
                  else Some (select_item opt p))
           else Some (select_item opt p))"

text \<open>\<open>move_selection\<close>, called by \<open>move_left\<close> and \<open>move_right\<close> with \<open>\<mp> panel_lines\<close>.\<close>

definition move_selection :: "nav_options \<Rightarrow> int \<Rightarrow> nav_panel \<Rightarrow> nav_panel" where
  "move_selection opt lines p0 =
     (let n1 = selected p0 + lines;
          n2 = (if n1 \<ge> dir_len p0 then dir_len p0 - 1 else n1);
          new_pos = (if n2 < 0 then 0 else n2);
          p = p0\<lparr>selected := new_pos\<rparr>;
          a1 = (selected p - top_file p \<ge> panel_items opt p);
          p1 = (if a1 then p\<lparr>top_file := top_file p + lines\<rparr> else p);
          a2 = (selected p1 - top_file p1 < 0);
          p2 = (if a2 then p1\<lparr>top_file := top_file p1 + lines\<rparr> else p1);
          p3 = (if a1 \<or> a2 then
                  let q = (if top_file p2 > selected p2 then p2\<lparr>top_file := selected p2\<rparr> else p2);
                      q' = (if top_file q < 0 then q\<lparr>top_file := 0\<rparr> else q)
                  in paint_dir q'
                else p2)
      in select_item opt p3)"

definition prev_page :: "nav_options \<Rightarrow> nav_panel \<Rightarrow> nav_panel" where
  "prev_page opt p =
     (if selected p = 0 \<and> top_file p = 0 then p
      else
        let i0 = panel_items opt p;
            items = (if top_file p < i0 then top_file p else i0);
            p1 = (if items = 0 then p\<lparr>selected := 0\<rparr> else p\<lparr>selected := selected p - items\<rparr>);
            p2 = p1\<lparr>top_file := top_file p1 - items\<rparr>
        in paint_dir (select_item opt p2))"

definition next_page :: "nav_options \<Rightarrow> nav_panel \<Rightarrow> nav_panel" where
  "next_page opt p =
     (if selected p = dir_len p - 1 then p
      else
        let i0 = panel_items opt p;
            i1 = (if top_file p > dir_len p - 2 * i0 then dir_len p - i0 - top_file p else i0);
            items = (if top_file p + i1 < 0 then - top_file p else i1);
            p1 = (if items = 0 then p\<lparr>selected := dir_len p - 1\<rparr>
                  else p\<lparr>selected := selected p + items\<rparr>);
            p2 = p1\<lparr>top_file := top_file p1 + items\<rparr>
        in paint_dir (select_item opt p2))"

definition goto_top_file :: "nav_options \<Rightarrow> nav_panel \<Rightarrow> nav_panel" where
  "goto_top_file opt p = select_item opt (p\<lparr>selected := top_file p\<rparr>)"

definition goto_middle_file :: "nav_options \<Rightarrow> nav_panel \<Rightarrow> nav_panel" where
  "goto_middle_file opt p =
     select_item opt (p\<lparr>selected := top_file p + tdiv (panel_items opt p) 2\<rparr>)"

definition goto_bottom_file :: "nav_options \<Rightarrow> nav_panel \<Rightarrow> nav_panel" where
  "goto_bottom_file opt p =
     select_item opt (p\<lparr>selected := top_file p + panel_items opt p - 1\<rparr>)"

definition move_home :: "nav_options \<Rightarrow> nav_panel \<Rightarrow> nav_panel" where
  "move_home opt p =
     (if selected p = 0 then p
      else if torben_fj_mode opt \<and> selected p > top_file p + tdiv (panel_items opt p) 2
        then goto_middle_file opt p
      else if torben_fj_mode opt \<and> selected p \<noteq> top_file p
        then goto_top_file opt p
      else select_item opt (paint_dir (p\<lparr>top_file := 0, selected := 0\<rparr>)))"

definition move_end :: "nav_options \<Rightarrow> nav_panel \<Rightarrow> nav_panel" where
  "move_end opt p =
     (if selected p = dir_len p - 1 then p
      else if torben_fj_mode opt \<and> selected p < top_file p + tdiv (panel_items opt p) 2
        then goto_middle_file opt p
      else if torben_fj_mode opt \<and> selected p \<noteq> top_file p + panel_items opt p - 1
        then goto_bottom_file opt p
      else select_item opt (paint_dir (p\<lparr>selected := dir_len p - 1\<rparr>)))"

text \<open>The step, page and jump operations, and a run of them.\<close>

datatype nav_op =
  MoveDown | MoveUp | MoveSelection int | PrevPage | NextPage
  | GotoTopFile | GotoMiddleFile | GotoBottomFile | MoveHome | MoveEnd

fun nav_step :: "nav_options \<Rightarrow> nav_op \<Rightarrow> nav_panel \<Rightarrow> nav_panel option" where
  "nav_step opt MoveDown p = move_down opt p"
| "nav_step opt MoveUp p = move_up opt p"
| "nav_step opt (MoveSelection lines) p = Some (move_selection opt lines p)"
| "nav_step opt PrevPage p = Some (prev_page opt p)"
| "nav_step opt NextPage p = Some (next_page opt p)"
| "nav_step opt GotoTopFile p = Some (goto_top_file opt p)"
| "nav_step opt GotoMiddleFile p = Some (goto_middle_file opt p)"
| "nav_step opt GotoBottomFile p = Some (goto_bottom_file opt p)"
| "nav_step opt MoveHome p = Some (move_home opt p)"
| "nav_step opt MoveEnd p = Some (move_end opt p)"


text \<open>The invariant of the panel view state.\<close>

definition nav_inv :: "nav_options \<Rightarrow> nav_panel \<Rightarrow> bool" where
  "nav_inv opt p \<longleftrightarrow>
     0 < dir_len p \<and> 0 \<le> selected p \<and> selected p < dir_len p \<and>
     top_file p \<le> selected p \<and> selected p < top_file p + panel_items opt p"

definition geom_ok :: "nav_options \<Rightarrow> nav_panel \<Rightarrow> bool" where
  "geom_ok opt p \<longleftrightarrow> 0 < dir_len p \<and> 0 < panel_items opt p"


lemma panel_items_upd [simp]:
  "panel_items opt (p\<lparr>selected := s\<rparr>) = panel_items opt p"
  "panel_items opt (p\<lparr>top_file := t\<rparr>) = panel_items opt p"
  "panel_items opt (p\<lparr>dirty := d\<rparr>) = panel_items opt p"
  "panel_items opt (p\<lparr>max_shift := m\<rparr>) = panel_items opt p"
  by (simp_all add: panel_items_def panel_lines_def)

lemma geom_ok_upd [simp]:
  "geom_ok opt (p\<lparr>selected := s\<rparr>) = geom_ok opt p"
  "geom_ok opt (p\<lparr>top_file := t\<rparr>) = geom_ok opt p"
  "geom_ok opt (p\<lparr>dirty := d\<rparr>) = geom_ok opt p"
  "geom_ok opt (p\<lparr>max_shift := m\<rparr>) = geom_ok opt p"
  by (simp_all add: geom_ok_def)


lemma adjust_top_file_geom [simp]: "geom_ok opt (adjust_top_file opt p) = geom_ok opt p"
  by (simp add: adjust_top_file_def Let_def)

lemma nav_inv_upd [simp]:
  "nav_inv opt (p\<lparr>dirty := d\<rparr>) = nav_inv opt p"
  "nav_inv opt (p\<lparr>max_shift := m\<rparr>) = nav_inv opt p"
  by (simp_all add: nav_inv_def)


lemma paint_dir_inv [simp]: "nav_inv opt (paint_dir p) = nav_inv opt p"
  by (simp add: paint_dir_def)

lemma paint_dir_geom [simp]: "geom_ok opt (paint_dir p) = geom_ok opt p"
  by (simp add: paint_dir_def)
















text \<open>Concrete panels for the instances below.\<close>

definition nav_opt0 :: nav_options where
  "nav_opt0 = \<lparr>show_mini_info = True, tabs_visible = True, bar_top = False,
     scroll_pages = False, scroll_center = True, torben_fj_mode = True\<rparr>"


definition fits_page :: "nav_options \<Rightarrow> nav_panel \<Rightarrow> bool" where
  "fits_page opt p \<longleftrightarrow> dir_len p \<le> panel_items opt p"

lemma fits_page_upd [simp]:
  "fits_page opt (p\<lparr>selected := s\<rparr>) = fits_page opt p"
  "fits_page opt (p\<lparr>top_file := t\<rparr>) = fits_page opt p"
  "fits_page opt (p\<lparr>dirty := d\<rparr>) = fits_page opt p"
  "fits_page opt (p\<lparr>max_shift := m\<rparr>) = fits_page opt p"
  "fits_page opt (paint_dir p) = fits_page opt p"
  by (simp_all add: fits_page_def paint_dir_def)

lemma fits_page_if:
  "fits_page opt (if c then x else y) = (if c then fits_page opt x else fits_page opt y)"
  by simp

lemma select_item_top0: "fits_page opt p \<Longrightarrow> top_file (select_item opt p) = 0"
  by (simp add: fits_page_def select_item_def adjust_top_file_def Let_def)

lemma top_file_paint_dir [simp]: "top_file (paint_dir p) = top_file p"
  by (simp add: paint_dir_def)

lemma move_selection_top0:
  "fits_page opt p \<Longrightarrow> top_file (move_selection opt lines p) = 0"
  unfolding move_selection_def Let_def
  by (rule select_item_top0) (simp add: fits_page_if split del: if_split cong: if_cong)

lemma prev_page_top0:
  assumes "fits_page opt p"
  shows "prev_page opt p = p \<or> top_file (prev_page opt p) = 0"
proof (cases "selected p = 0 \<and> top_file p = 0")
  case True
  then show ?thesis by (simp add: prev_page_def)
next
  case False
  have "top_file (prev_page opt p) = 0"
    using False unfolding prev_page_def Let_def
    apply (simp only: if_False top_file_paint_dir)
    apply (rule select_item_top0)
    apply (simp add: fits_page_if assms split del: if_split cong: if_cong)
    done
  then show ?thesis by simp
qed

lemma next_page_top0:
  assumes "fits_page opt p"
  shows "next_page opt p = p \<or> top_file (next_page opt p) = 0"
proof (cases "selected p = dir_len p - 1")
  case True
  then show ?thesis by (simp add: next_page_def)
next
  case False
  have "top_file (next_page opt p) = 0"
    using False unfolding next_page_def Let_def
    apply (simp only: if_False top_file_paint_dir)
    apply (rule select_item_top0)
    apply (simp add: fits_page_if assms split del: if_split cong: if_cong)
    done
  then show ?thesis by simp
qed

lemma goto_top0:
  "fits_page opt p \<Longrightarrow> top_file (goto_top_file opt p) = 0"
  "fits_page opt p \<Longrightarrow> top_file (goto_middle_file opt p) = 0"
  "fits_page opt p \<Longrightarrow> top_file (goto_bottom_file opt p) = 0"
  by (simp_all add: goto_top_file_def goto_middle_file_def goto_bottom_file_def select_item_top0)

lemma move_home_top0:
  "fits_page opt p \<Longrightarrow> move_home opt p = p \<or> top_file (move_home opt p) = 0"
  by (simp add: move_home_def goto_top0 select_item_top0)

lemma move_end_top0:
  "fits_page opt p \<Longrightarrow> move_end opt p = p \<or> top_file (move_end opt p) = 0"
  by (simp add: move_end_def goto_top0 select_item_top0)

lemma move_down_top0:
  "fits_page opt p \<Longrightarrow> move_down opt p = Some p' \<Longrightarrow> p' = p \<or> top_file p' = 0"
  by (auto simp: move_down_def Let_def select_item_top0 split: if_splits option.splits)

lemma move_up_top0:
  "fits_page opt p \<Longrightarrow> move_up opt p = Some p' \<Longrightarrow> p' = p \<or> top_file p' = 0"
  by (auto simp: move_up_def Let_def select_item_top0 split: if_splits option.splits)

text \<open>
  Claim C10. When the entry count is at most the items per page, \<open>adjust_top_file\<close> and
  \<open>select_item\<close> leave \<open>top_file\<close> at exactly 0, and so does every navigation operation
  that does not return early (an early return leaves the panel as it was).
\<close>

theorem viewport_pinned:
  "dir_len p \<le> panel_items opt p \<Longrightarrow>
   top_file (adjust_top_file opt p) = 0 \<and> top_file (select_item opt p) = 0 \<and>
   (\<forall>x p'. nav_step opt x p = Some p' \<longrightarrow> p' = p \<or> top_file p' = 0)"
proof (intro conjI allI impI)
  assume a: "dir_len p \<le> panel_items opt p"
  then have f: "fits_page opt p" by (simp add: fits_page_def)
  show "top_file (adjust_top_file opt p) = 0"
    using a by (simp add: adjust_top_file_def Let_def)
  show "top_file (select_item opt p) = 0" using f by (rule select_item_top0)
  fix x p'
  assume s: "nav_step opt x p = Some p'"
  show "p' = p \<or> top_file p' = 0"
  proof (cases x)
    case MoveDown
    then show ?thesis using s f move_down_top0 by simp
  next
    case MoveUp
    then show ?thesis using s f move_up_top0 by simp
  next
    case (MoveSelection lines)
    then show ?thesis using s f move_selection_top0 by auto
  next
    case PrevPage
    then show ?thesis using s prev_page_top0 [OF f] by auto
  next
    case NextPage
    then show ?thesis using s next_page_top0 [OF f] by auto
  next
    case GotoTopFile
    then show ?thesis using s goto_top0 [OF f] by auto
  next
    case GotoMiddleFile
    then show ?thesis using s goto_top0 [OF f] by auto
  next
    case GotoBottomFile
    then show ?thesis using s goto_top0 [OF f] by auto
  next
    case MoveHome
    then show ?thesis using s move_home_top0 [OF f] by auto
  next
    case MoveEnd
    then show ?thesis using s move_end_top0 [OF f] by auto
  qed
qed

definition nav_panel1 :: nav_panel where
  "nav_panel1 = \<lparr>wlines = 17, list_cols = 1, dir_len = 7, selected = 6, top_file = 4,
     dirty = 0, max_shift = - 1\<rparr>"








lemma fits_example: "dir_len nav_panel1 \<le> panel_items nav_opt0 nav_panel1"
  by code_simp

lemma move_up_example:
  "nav_step nav_opt0 MoveUp nav_panel1
     = Some (nav_panel1\<lparr>selected := 5, top_file := 0, dirty := 1\<rparr>)"
  by code_simp

theorem viewport_pinned_witness:
  "dir_len nav_panel1 \<le> panel_items nav_opt0 nav_panel1 \<and>
   top_file (adjust_top_file nav_opt0 nav_panel1) = 0 \<and>
   top_file (select_item nav_opt0 nav_panel1) = 0 \<and>
   nav_step nav_opt0 MoveUp nav_panel1
     = Some (nav_panel1\<lparr>selected := 5, top_file := 0, dirty := 1\<rparr>)"
  using viewport_pinned [OF fits_example] fits_example move_up_example
  by simp

section \<open>Selection and marking\<close>

text \<open>
  Modelled from the spec: \<open>file_entry_t\<close> and \<open>DIR_IS_DOTDOT\<close> are declared outside
  panel.c. An entry has a name, a marked flag, a size, and says whether it is a directory
  and whether its recursive size has been computed; the synthetic parent-directory entry
  is the one named \<open>..\<close>. The flag holds the value that was assigned to it.
\<close>

record file_entry =
  fname :: string
  f_marked :: int
  is_dir :: bool
  dir_size_computed :: bool
  st_size :: int

definition DIR_IS_DOTDOT :: "string \<Rightarrow> bool" where
  "DIR_IS_DOTDOT x \<longleftrightarrow> x = ''..''"

text \<open>
  The marking state of \<open>WPanel\<close>: the entries (\<open>dir.list\<close>, with \<open>dir.len\<close> its length),
  the counters \<open>marked\<close> and \<open>dirs_marked\<close>, and \<open>total\<close>, a \<open>uintmax_t\<close> that wraps
  modulo \<open>2 ^ 64\<close>.
\<close>

record mark_panel =
  dir_list :: "file_entry list"
  marked :: int
  dirs_marked :: int
  total :: "64 word"
  mdirty :: int

text \<open>An index outside \<open>dir.list\<close> is undefined behaviour in C: \<open>None\<close>.\<close>

definition file_mark :: "mark_panel \<Rightarrow> int \<Rightarrow> int \<Rightarrow> mark_panel option" where
  "file_mark panel lc_index val =
     (if lc_index < 0 \<or> lc_index \<ge> int (length (dir_list panel)) then None
      else
        let i = nat lc_index; e = dir_list panel ! i in
        if f_marked e \<noteq> val
        then Some (panel\<lparr>dir_list := (dir_list panel)[i := e\<lparr>f_marked := val\<rparr>], mdirty := 1\<rparr>)
        else Some panel)"

text \<open>\<open>do_file_mark\<close>; \<open>set_colors\<close> only touches the terminal.\<close>

definition do_file_mark :: "mark_panel \<Rightarrow> int \<Rightarrow> int \<Rightarrow> mark_panel option" where
  "do_file_mark panel idx mark =
     (if idx < 0 \<or> idx \<ge> int (length (dir_list panel)) then None
      else if f_marked (dir_list panel ! nat idx) = mark then Some panel
      else if DIR_IS_DOTDOT (fname (dir_list panel ! nat idx)) then Some panel
      else
        (case file_mark panel idx mark of
           None \<Rightarrow> None
         | Some p \<Rightarrow>
             let e = dir_list p ! nat idx in
             if f_marked e \<noteq> 0 then
               (let p1 = p\<lparr>marked := marked p + 1\<rparr> in
                if is_dir e then
                  (let p2 = (if dir_size_computed e
                             then p1\<lparr>total := total p1 + word_of_int (st_size e)\<rparr> else p1)
                   in Some (p2\<lparr>dirs_marked := dirs_marked p2 + 1\<rparr>))
                else Some (p1\<lparr>total := total p1 + word_of_int (st_size e)\<rparr>))
             else
               (let p1 = (if is_dir e then
                            (let p2 = (if dir_size_computed e
                                       then p\<lparr>total := total p - word_of_int (st_size e)\<rparr> else p)
                             in p2\<lparr>dirs_marked := dirs_marked p2 - 1\<rparr>)
                          else p\<lparr>total := total p - word_of_int (st_size e)\<rparr>)
                in Some (p1\<lparr>marked := marked p1 - 1\<rparr>))))"

text \<open>\<open>for (i = 0; i < panel->dir.len; i++) body\<close>, the body given the index.\<close>

fun for_each_index ::
  "(mark_panel \<Rightarrow> int \<Rightarrow> mark_panel option) \<Rightarrow> nat list \<Rightarrow> mark_panel \<Rightarrow> mark_panel option" where
  "for_each_index body [] panel = Some panel"
| "for_each_index body (i # is) panel =
     (case body panel (int i) of
        None \<Rightarrow> None
      | Some p \<Rightarrow> for_each_index body is p)"

definition unmark_files :: "mark_panel \<Rightarrow> mark_panel option" where
  "unmark_files panel =
     (if marked panel \<noteq> 0 then
        (case for_each_index (\<lambda>p i. file_mark p i 0) [0 ..< length (dir_list panel)] panel of
           None \<Rightarrow> None
         | Some p \<Rightarrow> Some (p\<lparr>dirs_marked := 0, marked := 0, total := 0\<rparr>))
      else Some panel)"

definition recalculate_body :: "mark_panel \<Rightarrow> int \<Rightarrow> mark_panel option" where
  "recalculate_body p i =
     (if f_marked (dir_list p ! nat i) \<noteq> 0 then
        do_file_mark
          (p\<lparr>dir_list := (dir_list p)[nat i := (dir_list p ! nat i)\<lparr>f_marked := 0\<rparr>]\<rparr>) i 1
      else Some p)"

definition recalculate_panel_summary :: "mark_panel \<Rightarrow> mark_panel option" where
  "recalculate_panel_summary panel =
     for_each_index recalculate_body [0 ..< length (dir_list panel)]
       (panel\<lparr>marked := 0, dirs_marked := 0, total := 0\<rparr>)"

text \<open>The marking operations of the public interface, and a run of them.\<close>

datatype mark_op =
  DoFileMark int int | FileMark int int | UnmarkFiles | RecalculatePanelSummary

fun mark_step :: "mark_op \<Rightarrow> mark_panel \<Rightarrow> mark_panel option" where
  "mark_step (DoFileMark idx mark) p = do_file_mark p idx mark"
| "mark_step (FileMark idx val) p = file_mark p idx val"
| "mark_step UnmarkFiles p = unmark_files p"
| "mark_step RecalculatePanelSummary p = recalculate_panel_summary p"

fun mark_run :: "mark_op list \<Rightarrow> mark_panel \<Rightarrow> mark_panel option" where
  "mark_run [] p = Some p"
| "mark_run (x # xs) p = (case mark_step x p of None \<Rightarrow> None | Some p' \<Rightarrow> mark_run xs p')"

text \<open>No entry named \<open>..\<close> is marked.\<close>

definition dotdot_unmarked :: "mark_panel \<Rightarrow> bool" where
  "dotdot_unmarked p \<longleftrightarrow>
     list_all (\<lambda>e. DIR_IS_DOTDOT (fname e) \<longrightarrow> f_marked e = 0) (dir_list p)"

text \<open>
  A raw \<open>file_mark\<close> is admitted unless it sets a non-zero value on a \<open>..\<close> entry; every
  other operation is admitted. An operation is in range when its index lies inside the
  list of \<open>n\<close> entries.
\<close>

definition dotdot_at :: "string list \<Rightarrow> int \<Rightarrow> bool" where
  "dotdot_at names idx \<longleftrightarrow>
     0 \<le> idx \<and> idx < int (length names) \<and> DIR_IS_DOTDOT (names ! nat idx)"

fun admitted :: "string list \<Rightarrow> mark_op \<Rightarrow> bool" where
  "admitted names (FileMark idx val) = (val = 0 \<or> \<not> dotdot_at names idx)"
| "admitted names _ = True"

fun in_range :: "nat \<Rightarrow> mark_op \<Rightarrow> bool" where
  "in_range n (DoFileMark idx mark) = (0 \<le> idx \<and> idx < int n)"
| "in_range n (FileMark idx val) = (0 \<le> idx \<and> idx < int n)"
| "in_range n _ = True"

text \<open>The names of the entries are fixed and no entry named \<open>..\<close> is marked.\<close>

definition mark_inv :: "string list \<Rightarrow> mark_panel \<Rightarrow> bool" where
  "mark_inv names p \<longleftrightarrow> map fname (dir_list p) = names \<and> dotdot_unmarked p"

lemma mark_inv_upd [simp]:
  "mark_inv names (p\<lparr>marked := a\<rparr>) = mark_inv names p"
  "mark_inv names (p\<lparr>dirs_marked := b\<rparr>) = mark_inv names p"
  "mark_inv names (p\<lparr>total := c\<rparr>) = mark_inv names p"
  "mark_inv names (p\<lparr>mdirty := d\<rparr>) = mark_inv names p"
  by (simp_all add: mark_inv_def dotdot_unmarked_def)

lemma list_all_update: "list_all P xs \<Longrightarrow> P x \<Longrightarrow> list_all P (xs[i := x])"
  by (induction xs arbitrary: i) (auto split: nat.splits)

lemma map_fname_update:
  "i < length xs \<Longrightarrow> map fname (xs[i := (xs ! i)\<lparr>f_marked := v\<rparr>]) = map fname xs"
  by (simp add: map_update list_update_same_conv)

lemma set_flag_inv:
  assumes "mark_inv names p" and "i < length names"
    and "v = 0 \<or> \<not> DIR_IS_DOTDOT (names ! i)"
  shows "mark_inv names (p\<lparr>dir_list := (dir_list p)[i := (dir_list p ! i)\<lparr>f_marked := v\<rparr>]\<rparr>)"
proof -
  have l: "i < length (dir_list p)" using assms(1,2) by (auto simp: mark_inv_def)
  have n: "fname (dir_list p ! i) = names ! i"
    using assms(1) l by (auto simp: mark_inv_def)
  show ?thesis using assms l n
    by (auto simp: mark_inv_def dotdot_unmarked_def map_fname_update intro!: list_all_update)
qed

lemma file_mark_inv:
  assumes "mark_inv names p" and "0 \<le> idx" and "idx < int (length names)"
    and "val = 0 \<or> \<not> DIR_IS_DOTDOT (names ! nat idx)"
  shows "\<exists>p'. file_mark p idx val = Some p' \<and> mark_inv names p'"
proof -
  have l: "length (dir_list p) = length names" using assms(1) by (auto simp: mark_inv_def)
  have i: "nat idx < length names" using assms(2,3) by simp
  show ?thesis
    using assms(1,2,3) l set_flag_inv [OF assms(1) i assms(4)]
    by (simp add: file_mark_def Let_def)
qed

lemma do_file_mark_inv:
  assumes "mark_inv names p" and "0 \<le> idx" and "idx < int (length names)"
  shows "\<exists>p'. do_file_mark p idx mark = Some p' \<and> mark_inv names p'"
proof -
  have l: "length (dir_list p) = length names" using assms(1) by (auto simp: mark_inv_def)
  have "nat idx < length (dir_list p)" using assms l by simp
  then have "map fname (dir_list p) ! nat idx = fname (dir_list p ! nat idx)" by (rule nth_map)
  then have n: "fname (dir_list p ! nat idx) = names ! nat idx"
    using assms(1) by (simp add: mark_inv_def)
  show ?thesis
  proof (cases "f_marked (dir_list p ! nat idx) = mark \<or> DIR_IS_DOTDOT (fname (dir_list p ! nat idx))")
    case True
    then show ?thesis using assms l by (auto simp: do_file_mark_def)
  next
    case False
    then have "mark = 0 \<or> \<not> DIR_IS_DOTDOT (names ! nat idx)" using n by simp
    from file_mark_inv [OF assms this]
    obtain q where q: "file_mark p idx mark = Some q" "mark_inv names q" by blast
    show ?thesis using False assms l q
      by (simp add: do_file_mark_def Let_def)
  qed
qed

lemma for_each_index_inv:
  assumes "\<And>p i. mark_inv names p \<Longrightarrow> i \<in> set ixs \<Longrightarrow>
              \<exists>p'. body p (int i) = Some p' \<and> mark_inv names p'"
    and "mark_inv names p"
  shows "\<exists>p'. for_each_index body ixs p = Some p' \<and> mark_inv names p'"
  using assms
proof (induction ixs arbitrary: p)
  case Nil
  then show ?case by simp
next
  case (Cons i ixs)
  from Cons.prems(1) [OF Cons.prems(2), of i]
  obtain q where q: "body p (int i) = Some q" "mark_inv names q" by auto
  have "\<exists>p'. for_each_index body ixs q = Some p' \<and> mark_inv names p'"
    using Cons.prems(1) q(2) by (intro Cons.IH) auto
  then show ?case using q(1) by simp
qed

lemma unmark_files_inv:
  assumes "mark_inv names p"
  shows "\<exists>p'. unmark_files p = Some p' \<and> mark_inv names p'"
proof -
  have l: "length (dir_list p) = length names" using assms by (auto simp: mark_inv_def)
  have "\<exists>p'. for_each_index (\<lambda>p i. file_mark p i 0) [0 ..< length (dir_list p)] p = Some p'
          \<and> mark_inv names p'"
    using assms l by (intro for_each_index_inv file_mark_inv) auto
  then show ?thesis using assms by (auto simp: unmark_files_def)
qed

lemma recalculate_body_inv:
  assumes "mark_inv names p" and "i < length names"
  shows "\<exists>p'. recalculate_body p (int i) = Some p' \<and> mark_inv names p'"
proof (cases "f_marked (dir_list p ! i) \<noteq> 0")
  case True
  have "mark_inv names (p\<lparr>dir_list := (dir_list p)[i := (dir_list p ! i)\<lparr>f_marked := 0\<rparr>]\<rparr>)"
    using assms by (intro set_flag_inv) auto
  then have "\<exists>p'. do_file_mark
      (p\<lparr>dir_list := (dir_list p)[i := (dir_list p ! i)\<lparr>f_marked := 0\<rparr>]\<rparr>) (int i) 1 = Some p'
      \<and> mark_inv names p'"
    using assms(2) by (intro do_file_mark_inv) auto
  then show ?thesis using True by (simp add: recalculate_body_def)
next
  case False
  then show ?thesis using assms by (simp add: recalculate_body_def)
qed

lemma recalculate_panel_summary_inv:
  assumes "mark_inv names p"
  shows "\<exists>p'. recalculate_panel_summary p = Some p' \<and> mark_inv names p'"
proof -
  have l: "length (dir_list p) = length names" using assms by (auto simp: mark_inv_def)
  show ?thesis unfolding recalculate_panel_summary_def
    using assms l by (intro for_each_index_inv recalculate_body_inv) auto
qed

lemma mark_step_keeps:
  assumes "mark_inv names p" and "admitted names x" and "mark_step x p = Some p'"
  shows "mark_inv names p'"
proof -
  have l: "length (dir_list p) = length names" using assms(1) by (auto simp: mark_inv_def)
  show ?thesis
  proof (cases x)
    case (DoFileMark idx mark)
    then have r: "0 \<le> idx" "idx < int (length names)"
      using assms(3) l by (auto simp: do_file_mark_def split: if_splits)
    from do_file_mark_inv [OF assms(1) r, of mark] show ?thesis
      using assms(3) DoFileMark by simp
  next
    case (FileMark idx val)
    then have r: "0 \<le> idx" "idx < int (length names)"
      using assms(3) l by (auto simp: file_mark_def split: if_splits)
    have "val = 0 \<or> \<not> DIR_IS_DOTDOT (names ! nat idx)"
      using assms(2) FileMark r by (simp add: dotdot_at_def)
    from file_mark_inv [OF assms(1) r this] show ?thesis
      using assms(3) FileMark by simp
  next
    case UnmarkFiles
    then show ?thesis using assms unmark_files_inv [of names p] by simp
  next
    case RecalculatePanelSummary
    then show ?thesis using assms recalculate_panel_summary_inv [of names p] by simp
  qed
qed

lemma mark_step_defined:
  assumes "mark_inv names p" and "in_range (length names) x"
  shows "\<exists>p'. mark_step x p = Some p'"
proof -
  have l: "length (dir_list p) = length names" using assms(1) by (auto simp: mark_inv_def)
  show ?thesis
  proof (cases x)
    case (DoFileMark idx mark)
    then show ?thesis using assms do_file_mark_inv [of names p idx mark] by auto
  next
    case (FileMark idx val)
    then show ?thesis using assms l by (simp add: file_mark_def Let_def)
  next
    case UnmarkFiles
    then show ?thesis using assms unmark_files_inv [of names p] by auto
  next
    case RecalculatePanelSummary
    then show ?thesis using assms recalculate_panel_summary_inv [of names p] by auto
  qed
qed

lemma mark_run_keeps:
  "mark_inv names p \<Longrightarrow> list_all (admitted names) ops \<Longrightarrow> mark_run ops p = Some p' \<Longrightarrow>
   mark_inv names p'"
proof (induction ops arbitrary: p)
  case Nil
  then show ?case by simp
next
  case (Cons x xs)
  from Cons.prems(3) obtain q where q: "mark_step x p = Some q" "mark_run xs q = Some p'"
    by (auto split: option.splits)
  have "mark_inv names q" using Cons.prems(1,2) q(1) by (intro mark_step_keeps [of names p x q]) simp_all
  then show ?case using Cons.prems(2) q(2) by (intro Cons.IH [of q]) simp_all
qed

lemma mark_run_defined:
  "mark_inv names p \<Longrightarrow> list_all (admitted names) ops \<Longrightarrow>
   list_all (in_range (length names)) ops \<Longrightarrow> \<exists>p'. mark_run ops p = Some p'"
proof (induction ops arbitrary: p)
  case Nil
  then show ?case by simp
next
  case (Cons x xs)
  from mark_step_defined [of names p x] Cons.prems
  obtain q where q: "mark_step x p = Some q" by auto
  have "mark_inv names q" using Cons.prems(1,2) q by (intro mark_step_keeps [of names p x q]) simp_all
  then have "\<exists>p'. mark_run xs q = Some p'" using Cons.prems by (intro Cons.IH) simp_all
  then show ?case using q by simp
qed

text \<open>
  Claim C9, as amended. Start from a panel in which no \<open>..\<close> entry is marked, and take any
  run of \<open>do_file_mark\<close>, \<open>recalculate_panel_summary\<close>, \<open>unmark_files\<close> and \<open>file_mark\<close> in
  which no \<open>file_mark\<close> call sets a non-zero value on a \<open>..\<close> entry. Whenever the run has a
  result, the entries' names are the same and every \<open>..\<close> entry is still unmarked; and the
  run has a result when its indices lie inside the entry list (an index outside
  \<open>dir.list\<close> is undefined behaviour).
\<close>

theorem dotdot_never_marked:
  assumes "dotdot_unmarked p"
    and "list_all (admitted (map fname (dir_list p))) ops"
  shows "(\<forall>p'. mark_run ops p = Some p' \<longrightarrow>
            map fname (dir_list p') = map fname (dir_list p) \<and> dotdot_unmarked p') \<and>
         (list_all (in_range (length (dir_list p))) ops \<longrightarrow> (\<exists>p'. mark_run ops p = Some p'))"
proof -
  define names where "names = map fname (dir_list p)"
  have i: "mark_inv names p" using assms(1) by (simp add: mark_inv_def names_def)
  have a: "list_all (admitted names) ops" using assms(2) by (simp add: names_def)
  have "mark_inv names p'" if "mark_run ops p = Some p'" for p'
    using i a that by (rule mark_run_keeps)
  moreover have "\<exists>p'. mark_run ops p = Some p'"
    if "list_all (in_range (length (dir_list p))) ops"
    using i a that by (intro mark_run_defined [of names]) (simp_all add: names_def)
  ultimately show ?thesis by (auto simp: mark_inv_def names_def)
qed

text \<open>A concrete panel: \<open>..\<close>, two files and a directory.\<close>

definition entry :: "string \<Rightarrow> int \<Rightarrow> bool \<Rightarrow> int \<Rightarrow> file_entry" where
  "entry n m d s = \<lparr>fname = n, f_marked = m, is_dir = d, dir_size_computed = False, st_size = s\<rparr>"

definition mark_panel0 :: mark_panel where
  "mark_panel0 = \<lparr>dir_list = [entry ''..'' 0 True 4096, entry ''a.txt'' 0 False 10,
      entry ''src'' 1 True 4096, entry ''b.txt'' 1 False 32],
     marked = 2, dirs_marked = 1, total = 32, mdirty = 0\<rparr>"

definition mark_ops0 :: "mark_op list" where
  "mark_ops0 = [DoFileMark 0 1, FileMark 1 1, RecalculatePanelSummary, FileMark 0 0,
     UnmarkFiles, DoFileMark 3 1]"

lemma mark_panel0_ok:
  "dotdot_unmarked mark_panel0"
  "list_all (admitted (map fname (dir_list mark_panel0))) mark_ops0"
  "list_all (in_range (length (dir_list mark_panel0))) mark_ops0"
  by code_simp+

theorem dotdot_never_marked_witness:
  "dotdot_unmarked mark_panel0 \<and>
   list_all (admitted (map fname (dir_list mark_panel0))) mark_ops0 \<and>
   list_all (in_range (length (dir_list mark_panel0))) mark_ops0 \<and>
   (\<exists>p'. mark_run mark_ops0 mark_panel0 = Some p' \<and>
         map fname (dir_list p') = map fname (dir_list mark_panel0) \<and> dotdot_unmarked p')"
  using dotdot_never_marked [OF mark_panel0_ok(1,2)] mark_panel0_ok by auto

text \<open>
  Claim C9 as stated fails: \<open>file_mark\<close> is the unguarded setter, and
  \<open>file_mark (panel, 0, 1)\<close> marks the \<open>..\<close> entry at index 0; this call is the one the
  amended claim leaves out.
\<close>

theorem dotdot_never_marked_counterexample:
  "dotdot_unmarked mark_panel0 \<and>
   mark_run [FileMark 0 1] mark_panel0
     = Some (mark_panel0\<lparr>dir_list := (dir_list mark_panel0)[0 := entry ''..'' 1 True 4096],
               mdirty := 1\<rparr>) \<and>
   \<not> dotdot_unmarked (mark_panel0\<lparr>dir_list := (dir_list mark_panel0)[0 := entry ''..'' 1 True 4096],
               mdirty := 1\<rparr>)"
  by code_simp

section \<open>Tab manager: the ring of tabs\<close>

text \<open>
  The ring is a circular doubly-linked list of \<open>GList\<close> nodes whose \<open>data\<close> point to
  \<open>Tab\<close> objects. Pointers are addresses, \<open>NULL\<close> is 0, and the two heaps map an address
  to the object allocated there; following \<open>NULL\<close> or a freed pointer is undefined
  behaviour, \<open>None\<close> in the model. \<open>g_new0\<close> hands out the fresh address \<open>brk\<close>.
\<close>

type_synonym addr = nat

definition NULL :: addr where
  "NULL = 0"

record Tab =
  tab_name :: "string option"
  tab_path :: "string option"

record GList =
  g_data :: addr
  g_next :: addr
  g_prev :: addr

datatype TabsDirection_t =
  TABDIR_NEXT | TABDIR_PREV | TABDIR_FIRST | TABDIR_LAST | TABDIR_ABSOLUTE

record TabsInfo =
  t_list :: addr
  t_current :: addr
  do_not_delete :: int

record tab_panel =
  tabs :: TabsInfo
  cwd_vpath :: string

datatype panel_id = PanelA | PanelB

record tab_world =
  nodes :: "addr \<Rightarrow> GList option"
  tab_objs :: "addr \<Rightarrow> Tab option"
  brk :: addr
  panels :: "panel_id \<Rightarrow> tab_panel"
  current_panel :: panel_id
  messages :: "string list"

definition other_panel :: "tab_world \<Rightarrow> panel_id" where
  "other_panel w = (case current_panel w of PanelA \<Rightarrow> PanelB | PanelB \<Rightarrow> PanelA)"

text \<open>
  What the tab code takes from outside panel.c: \<open>mc_chdir\<close> (\<open>None\<close> when it fails, else the
  directory the VFS reports afterwards), whether \<open>dir_list_load\<close> succeeds there, and
  \<open>tabs_options.open_where\<close>.
\<close>

datatype open_where_t = BEFORE_CURRENT | AFTER_CURRENT | AT_END | AT_BEGINNING

record tab_env =
  mc_chdir :: "string \<Rightarrow> string option"
  dir_list_load :: "string \<Rightarrow> bool"
  open_where :: open_where_t

definition node_at :: "tab_world \<Rightarrow> addr \<Rightarrow> GList option" where
  "node_at w a = (if a = NULL then None else nodes w a)"

definition tab_at :: "tab_world \<Rightarrow> addr \<Rightarrow> Tab option" where
  "tab_at w a = (if a = NULL then None else tab_objs w a)"

definition set_node :: "addr \<Rightarrow> GList \<Rightarrow> tab_world \<Rightarrow> tab_world" where
  "set_node a n w = w\<lparr>nodes := fun_upd (nodes w) a (Some n)\<rparr>"

definition free_node :: "addr \<Rightarrow> tab_world \<Rightarrow> tab_world" where
  "free_node a w = w\<lparr>nodes := fun_upd (nodes w) a None\<rparr>"

definition set_tab :: "addr \<Rightarrow> Tab \<Rightarrow> tab_world \<Rightarrow> tab_world" where
  "set_tab a t w = w\<lparr>tab_objs := fun_upd (tab_objs w) a (Some t)\<rparr>"

definition free_tab :: "addr \<Rightarrow> tab_world \<Rightarrow> tab_world" where
  "free_tab a w = w\<lparr>tab_objs := fun_upd (tab_objs w) a None\<rparr>"

definition set_tabs :: "panel_id \<Rightarrow> TabsInfo \<Rightarrow> tab_world \<Rightarrow> tab_world" where
  "set_tabs pid ti w = w\<lparr>panels := fun_upd (panels w) pid ((panels w pid)\<lparr>tabs := ti\<rparr>)\<rparr>"

definition set_cwd :: "panel_id \<Rightarrow> string \<Rightarrow> tab_world \<Rightarrow> tab_world" where
  "set_cwd pid d w = w\<lparr>panels := fun_upd (panels w) pid ((panels w pid)\<lparr>cwd_vpath := d\<rparr>)\<rparr>"

text \<open>\<open>g_new0\<close>: the address handed out is \<open>brk\<close>, and \<open>brk\<close> advances.\<close>

definition g_new0 :: "tab_world \<Rightarrow> tab_world" where
  "g_new0 w = w\<lparr>brk := brk w + 1\<rparr>"

text \<open>\<open>message (D_ERROR, MSG_ERROR, text)\<close>: the texts shown to the user are collected.\<close>

definition message :: "string \<Rightarrow> tab_world \<Rightarrow> tab_world" where
  "message text w = w\<lparr>messages := messages w @ [text]\<rparr>"

definition cannot_close_text :: string where
  "cannot_close_text = ''The current tab is the only one.'' @ [CHR 0x0A] @ ''You cannot close it.''"

definition cannot_move_text :: string where
  "cannot_move_text = ''The current tab is the only one.'' @ [CHR 0x0A] @ ''You cannot move it.''"

text \<open>
  \<open>do_panel_cd\<close> with \<open>cd_exact\<close>: nothing changes when \<open>mc_chdir\<close> fails; otherwise the
  panel's \<open>cwd_vpath\<close> becomes the new directory and the listing is reloaded, with an
  error message when that fails. The tab ring is not touched.
\<close>

definition do_panel_cd :: "tab_env \<Rightarrow> panel_id \<Rightarrow> string \<Rightarrow> tab_world \<Rightarrow> tab_world" where
  "do_panel_cd env pid new_dir w =
     (case mc_chdir env new_dir of
        None \<Rightarrow> w
      | Some d \<Rightarrow>
          let w1 = set_cwd pid d w
          in if dir_list_load env d then w1
             else message ''Cannot read directory contents'' w1)"

definition get_new_tabs_direction :: "tab_env \<Rightarrow> TabsDirection_t" where
  "get_new_tabs_direction env =
     (case open_where env of
        BEFORE_CURRENT \<Rightarrow> TABDIR_PREV
      | AFTER_CURRENT \<Rightarrow> TABDIR_NEXT
      | AT_END \<Rightarrow> TABDIR_LAST
      | AT_BEGINNING \<Rightarrow> TABDIR_FIRST)"

text \<open>\<open>if (t->path) do_panel_cd (p, t->path, cd_exact);\<close>\<close>

definition cd_to_tab :: "tab_env \<Rightarrow> panel_id \<Rightarrow> Tab \<Rightarrow> tab_world \<Rightarrow> tab_world" where
  "cd_to_tab env pid t w =
     (case tab_path t of None \<Rightarrow> w | Some pth \<Rightarrow> do_panel_cd env pid pth w)"

definition new_current ::
  "tab_world \<Rightarrow> TabsInfo \<Rightarrow> GList \<Rightarrow> TabsDirection_t \<Rightarrow> addr \<Rightarrow> addr option" where
  "new_current w ti cn d tab =
     (case d of
        TABDIR_NEXT \<Rightarrow> Some (g_next cn)
      | TABDIR_PREV \<Rightarrow> Some (g_prev cn)
      | TABDIR_FIRST \<Rightarrow> Some (t_list ti)
      | TABDIR_LAST \<Rightarrow> map_option g_prev (node_at w (t_list ti))
      | TABDIR_ABSOLUTE \<Rightarrow> Some (if tab \<noteq> NULL then tab else t_current ti))"

definition change_tab ::
  "tab_env \<Rightarrow> panel_id \<Rightarrow> TabsDirection_t \<Rightarrow> addr \<Rightarrow> tab_world \<Rightarrow> tab_world option" where
  "change_tab env pid d tab w =
     (let ti = tabs (panels w pid) in
      if t_current ti = NULL then Some w
      else do {
        cn \<leftarrow> node_at w (t_current ti);
        t \<leftarrow> tab_at w (g_data cn);
        let w1 = set_tab (g_data cn) (t\<lparr>tab_path := Some (cwd_vpath (panels w pid))\<rparr>) w;
        new_cur \<leftarrow> new_current w1 ti cn d tab;
        let w2 = set_tabs pid (ti\<lparr>t_current := new_cur\<rparr>) w1;
        nn \<leftarrow> node_at w2 new_cur;
        t2 \<leftarrow> tab_at w2 (g_data nn);
        Some (cd_to_tab env pid t2 w2)
      })"

text \<open>\<open>destroy_tab\<close> reads \<open>t->path\<close> and \<open>t->name\<close> and frees the \<open>Tab\<close>.\<close>

definition destroy_tab :: "addr \<Rightarrow> tab_world \<Rightarrow> tab_world option" where
  "destroy_tab t w = do { _ \<leftarrow> tab_at w t; Some (free_tab t w) }"

definition close_tab :: "tab_env \<Rightarrow> panel_id \<Rightarrow> tab_world \<Rightarrow> tab_world option" where
  "close_tab env pid w =
     (let ti = tabs (panels w pid) in
      do {
        ln \<leftarrow> node_at w (t_list ti);
        if g_next ln = t_list ti
        then Some (message cannot_close_text w)
        else do {
          let first = (t_current ti = t_list ti);
          let c = t_current ti;
          cn \<leftarrow> node_at w c;
          let b = g_prev cn;
          let d = g_next cn;
          w1 \<leftarrow> change_tab env pid TABDIR_PREV NULL w;
          nb \<leftarrow> node_at w1 b;
          let w2 = set_node b (nb\<lparr>g_next := d\<rparr>) w1;
          nd \<leftarrow> node_at w2 d;
          let w3 = set_node d (nd\<lparr>g_prev := b\<rparr>) w2;
          cn' \<leftarrow> node_at w3 c;
          w4 \<leftarrow> destroy_tab (g_data cn') w3;
          let w5 = free_node c w4;
          Some (if first then set_tabs pid ((tabs (panels w5 pid))\<lparr>t_list := d\<rparr>) w5 else w5)
        }
      })"

text \<open>\<open>create_tab\<close>; the new node and, when \<open>tab\<close> is \<open>NULL\<close>, the new \<open>Tab\<close> are zeroed.\<close>

definition target_position :: "tab_world \<Rightarrow> TabsInfo \<Rightarrow> TabsDirection_t \<Rightarrow> addr option" where
  "target_position w ti direction =
     (case direction of
        TABDIR_NEXT \<Rightarrow> Some (t_current ti)
      | TABDIR_PREV \<Rightarrow> map_option g_prev (node_at w (t_current ti))
      | TABDIR_ABSOLUTE \<Rightarrow> Some NULL
      | _ \<Rightarrow> (if t_list ti \<noteq> NULL then map_option g_prev (node_at w (t_list ti))
              else Some NULL))"

definition create_tab ::
  "panel_id \<Rightarrow> TabsDirection_t \<Rightarrow> addr \<Rightarrow> tab_world \<Rightarrow> tab_world option" where
  "create_tab pid direction tab0 w0 =
     (let new = brk w0;
          wa = set_node new \<lparr>g_data = NULL, g_next = NULL, g_prev = NULL\<rparr> (g_new0 w0);
          tab = (if tab0 = NULL then brk wa else tab0);
          wb = (if tab0 = NULL
                then set_tab (brk wa) \<lparr>tab_name = None, tab_path = None\<rparr> (g_new0 wa)
                else wa);
          w = set_node new \<lparr>g_data = tab, g_next = NULL, g_prev = NULL\<rparr> wb;
          ti = tabs (panels w pid)
      in do {
        pTabListItem \<leftarrow> target_position w ti direction;
        w4 \<leftarrow> (if pTabListItem \<noteq> NULL then do {
                  pn \<leftarrow> node_at w pTabListItem;
                  let d = g_next pn;
                  let w1 = set_node pTabListItem (pn\<lparr>g_next := new\<rparr>) w;
                  nn \<leftarrow> node_at w1 new;
                  let w2 = set_node new (nn\<lparr>g_next := d\<rparr>) w1;
                  dn \<leftarrow> node_at w2 d;
                  let w3 = set_node d (dn\<lparr>g_prev := new\<rparr>) w2;
                  nn' \<leftarrow> node_at w3 new;
                  Some (set_node new (nn'\<lparr>g_prev := pTabListItem\<rparr>) w3)
                }
                else Some (set_tabs pid (ti\<lparr>t_current := new\<rparr>)
                       (set_node new \<lparr>g_data = tab, g_next = new, g_prev = new\<rparr> w)));
        Some (if t_list (tabs (panels w4 pid)) = NULL \<or> direction = TABDIR_FIRST
              then set_tabs pid ((tabs (panels w4 pid))\<lparr>t_list := new\<rparr>) w4
              else w4)
      })"

text \<open>
  The search loop of \<open>move_tab_to_other_panel\<close>:
  \<open>while (i != current) { if (i->data == t) break; i = i->next; }\<close>. On a broken ring it
  may run forever, which is \<open>None\<close> as well.
\<close>

partial_function (option) find_tab_node :: "tab_world \<Rightarrow> addr \<Rightarrow> addr \<Rightarrow> addr \<Rightarrow> addr option" where
  "find_tab_node w cur t i =
     (if i = cur then Some i
      else case node_at w i of
             None \<Rightarrow> None
           | Some n \<Rightarrow> if g_data n = t then Some i else find_tab_node w cur t (g_next n))"

declare find_tab_node.simps [code]

text \<open>Modelled from the spec: \<open>change_panel\<close> switches the focused and the other panel.\<close>

definition change_panel :: "tab_world \<Rightarrow> tab_world" where
  "change_panel w = w\<lparr>current_panel := other_panel w\<rparr>"

definition move_tab_to_other_panel :: "tab_env \<Rightarrow> tab_world \<Rightarrow> tab_world option" where
  "move_tab_to_other_panel env w =
     (let opanel = other_panel w; cpanel = current_panel w;
          d = get_new_tabs_direction env;
          ti = tabs (panels w cpanel) in
      do {
        ln \<leftarrow> node_at w (t_list ti);
        if g_next ln = t_list ti
        then Some (message cannot_move_text w)
        else do {
          let first_tab = (t_list ti = t_current ti);
          let w1 = (if first_tab then set_tabs cpanel (ti\<lparr>t_list := g_next ln\<rparr>) w else w);
          cn \<leftarrow> node_at w1 (t_current (tabs (panels w1 cpanel)));
          let t = g_data cn;
          w2 \<leftarrow> create_tab opanel d t w1;
          let i = t_current (tabs (panels w2 cpanel));
          w3 \<leftarrow> change_tab env cpanel TABDIR_PREV NULL w2;
          inode \<leftarrow> node_at w3 i;
          pn \<leftarrow> node_at w3 (g_prev inode);
          let w4 = set_node (g_prev inode) (pn\<lparr>g_next := g_next inode\<rparr>) w3;
          inode' \<leftarrow> node_at w4 i;
          nn \<leftarrow> node_at w4 (g_next inode');
          let w5 = set_node (g_next inode') (nn\<lparr>g_prev := g_prev inode'\<rparr>) w4;
          let w6 = free_node i w5;
          let ocur = t_current (tabs (panels w6 opanel));
          on \<leftarrow> node_at w6 ocur;
          j \<leftarrow> find_tab_node w6 ocur t (g_next on);
          w7 \<leftarrow> change_tab env opanel TABDIR_ABSOLUTE j w6;
          let w8 = change_panel w7;
          if first_tab
          then change_tab env cpanel TABDIR_ABSOLUTE (t_list (tabs (panels w8 cpanel))) w8
          else Some w8
        }
      })"


subsection \<open>Rings in the node heap\<close>

text \<open>
  \<open>ring h xs\<close>: the addresses \<open>xs\<close>, all different, are linked in this order by the
  \<open>next\<close> pointers of the heap \<open>h\<close>, the last one back to the first, and by the \<open>prev\<close>
  pointers the other way round. The head of the ring is \<open>hd xs\<close>.
\<close>

definition nxt :: "(addr \<Rightarrow> GList option) \<Rightarrow> addr \<Rightarrow> addr option" where
  "nxt h a = (if a = NULL then None else map_option g_next (h a))"

definition prv :: "(addr \<Rightarrow> GList option) \<Rightarrow> addr \<Rightarrow> addr option" where
  "prv h a = (if a = NULL then None else map_option g_prev (h a))"

definition linked :: "(addr \<Rightarrow> GList option) \<Rightarrow> addr \<Rightarrow> addr \<Rightarrow> bool" where
  "linked h a b \<longleftrightarrow> nxt h a = Some b \<and> prv h b = Some a"

fun chain :: "(addr \<Rightarrow> GList option) \<Rightarrow> addr list \<Rightarrow> bool" where
  "chain h [] = True"
| "chain h [a] = True"
| "chain h (a # b # rest) = (linked h a b \<and> chain h (b # rest))"

definition ring :: "(addr \<Rightarrow> GList option) \<Rightarrow> addr list \<Rightarrow> bool" where
  "ring h xs \<longleftrightarrow> xs \<noteq> [] \<and> distinct xs \<and> chain h xs \<and> linked h (last xs) (hd xs)"

text \<open>Every node of \<open>xs\<close> points to an allocated \<open>Tab\<close>.\<close>

definition data_ok :: "tab_world \<Rightarrow> addr \<Rightarrow> bool" where
  "data_ok w a \<longleftrightarrow>
     (case node_at w a of None \<Rightarrow> False | Some n \<Rightarrow> tab_at w (g_data n) \<noteq> None)"

lemma chain_append:
  "chain h (xs @ ys) \<longleftrightarrow>
     chain h xs \<and> chain h ys \<and> (xs \<noteq> [] \<and> ys \<noteq> [] \<longrightarrow> linked h (last xs) (hd ys))"
proof (induction h xs rule: chain.induct)
  case (1 h)
  show ?case by simp
next
  case (2 h a)
  show ?case by (cases ys) auto
next
  case (3 h a b rest)
  then show ?case by auto
qed

lemma ring_rotate:
  assumes "ring h (xs @ ys)"
  shows "ring h (ys @ xs)"
proof (cases "xs = [] \<or> ys = []")
  case True
  then show ?thesis using assms by auto
next
  case False
  then have x: "xs \<noteq> []" and y: "ys \<noteq> []" by simp_all
  have c: "chain h xs" "chain h ys" "linked h (last xs) (hd ys)"
    using assms x y by (simp_all add: ring_def chain_append)
  have l: "linked h (last ys) (hd xs)" using assms x y by (simp add: ring_def)
  have "chain h (ys @ xs)" using c l x y by (simp add: chain_append)
  moreover have "distinct (ys @ xs)" using assms by (auto simp: ring_def)
  ultimately show ?thesis using c x y by (simp add: ring_def)
qed

lemma chain_cong:
  "chain h xs \<Longrightarrow> distinct xs \<Longrightarrow>
   (\<forall>x \<in> set xs. x \<noteq> last xs \<longrightarrow> nxt h' x = nxt h x) \<Longrightarrow>
   (\<forall>x \<in> set xs. x \<noteq> hd xs \<longrightarrow> prv h' x = prv h x) \<Longrightarrow>
   chain h' xs"
proof (induction h xs rule: chain.induct)
  case (1 h)
  show ?case by simp
next
  case (2 h a)
  show ?case by simp
next
  case (3 h a b rest)
  have l: "last (a # b # rest) = last (b # rest)" by simp
  have "last (b # rest) \<in> set (b # rest)" by (rule last_in_set) simp
  then have al: "a \<noteq> last (a # b # rest)" using "3.prems"(2) unfolding l by auto
  have ba: "b \<noteq> hd (a # b # rest)" using "3.prems"(2) by auto
  have "nxt h' a = nxt h a" using "3.prems"(3) al by simp
  moreover have "prv h' b = prv h b" using "3.prems"(4) ba by simp
  ultimately have ab: "linked h' a b" using "3.prems"(1) by (simp add: linked_def)
  have n: "\<forall>x \<in> set (b # rest). x \<noteq> last (b # rest) \<longrightarrow> nxt h' x = nxt h x"
    using "3.prems"(3) unfolding l by simp
  have p: "\<forall>x \<in> set (b # rest). x \<noteq> hd (b # rest) \<longrightarrow> prv h' x = prv h x"
  proof (intro ballI impI)
    fix x assume x: "x \<in> set (b # rest)" "x \<noteq> hd (b # rest)"
    then have "x \<noteq> a" using "3.prems"(2) by auto
    then show "prv h' x = prv h x" using "3.prems"(4) x by simp
  qed
  have "chain h (b # rest)" "distinct (b # rest)" using "3.prems"(1,2) by simp_all
  then have "chain h' (b # rest)" using n p by (rule "3.IH")
  then show ?case using ab by simp
qed

lemma ring_unlink:
  assumes r: "ring h (c # rest)" and ne: "rest \<noteq> []"
    and n: "nxt h' (last rest) = Some (hd rest)"
    and p: "prv h' (hd rest) = Some (last rest)"
    and fn: "\<forall>x \<in> set rest. x \<noteq> last rest \<longrightarrow> nxt h' x = nxt h x"
    and fp: "\<forall>x \<in> set rest. x \<noteq> hd rest \<longrightarrow> prv h' x = prv h x"
  shows "ring h' rest"
proof -
  have d: "distinct rest" using r by (simp add: ring_def)
  have "chain h rest" using r ne by (cases rest) (simp_all add: ring_def)
  then have "chain h' rest" using d fn fp by (rule chain_cong)
  then show ?thesis using ne d n p by (simp add: ring_def linked_def)
qed


lemma ring_hd_links:
  assumes "ring h (c # rest)" and "rest \<noteq> []"
  shows "nxt h c = Some (hd rest)" and "prv h c = Some (last rest)"
    and "nxt h (last rest) = Some c" and "prv h (hd rest) = Some c"
  using assms by (cases rest; simp add: ring_def linked_def)+

lemma ring_single: "ring h [a] \<longleftrightarrow> nxt h a = Some a \<and> prv h a = Some a"
  by (simp add: ring_def linked_def)

lemma ring_not_NULL: "ring h xs \<Longrightarrow> a \<in> set xs \<Longrightarrow> a \<noteq> NULL"
proof -
  assume r: "ring h xs" and a: "a \<in> set xs"
  then obtain us vs where "xs = us @ a # vs" by (auto simp: in_set_conv_decomp)
  then have "ring h (a # vs @ us)" using r ring_rotate [of h us "a # vs"] by simp
  then have "\<exists>b. nxt h a = Some b"
    by (cases "vs @ us") (auto simp: ring_def linked_def)
  then show ?thesis by (auto simp: nxt_def)
qed


subsection \<open>Frame rules of the state updates\<close>

lemma set_node_simps [simp]:
  "nodes (set_node a n w) = (nodes w)(a := Some n)"
  "tab_objs (set_node a n w) = tab_objs w"
  "brk (set_node a n w) = brk w"
  "panels (set_node a n w) = panels w"
  "current_panel (set_node a n w) = current_panel w"
  "messages (set_node a n w) = messages w"
  by (simp_all add: set_node_def)

lemma free_node_simps [simp]:
  "nodes (free_node a w) = (nodes w)(a := None)"
  "tab_objs (free_node a w) = tab_objs w"
  "brk (free_node a w) = brk w"
  "panels (free_node a w) = panels w"
  "current_panel (free_node a w) = current_panel w"
  "messages (free_node a w) = messages w"
  by (simp_all add: free_node_def)

lemma set_tab_simps [simp]:
  "nodes (set_tab a t w) = nodes w"
  "tab_objs (set_tab a t w) = (tab_objs w)(a := Some t)"
  "brk (set_tab a t w) = brk w"
  "panels (set_tab a t w) = panels w"
  "current_panel (set_tab a t w) = current_panel w"
  "messages (set_tab a t w) = messages w"
  by (simp_all add: set_tab_def)

lemma free_tab_simps [simp]:
  "nodes (free_tab a w) = nodes w"
  "tab_objs (free_tab a w) = (tab_objs w)(a := None)"
  "brk (free_tab a w) = brk w"
  "panels (free_tab a w) = panels w"
  "current_panel (free_tab a w) = current_panel w"
  "messages (free_tab a w) = messages w"
  by (simp_all add: free_tab_def)

lemma set_tabs_simps [simp]:
  "nodes (set_tabs pid ti w) = nodes w"
  "tab_objs (set_tabs pid ti w) = tab_objs w"
  "brk (set_tabs pid ti w) = brk w"
  "tabs (panels (set_tabs pid ti w) q) = (if q = pid then ti else tabs (panels w q))"
  "cwd_vpath (panels (set_tabs pid ti w) q) = cwd_vpath (panels w q)"
  "current_panel (set_tabs pid ti w) = current_panel w"
  "messages (set_tabs pid ti w) = messages w"
  by (simp_all add: set_tabs_def)

lemma set_cwd_simps [simp]:
  "nodes (set_cwd pid d w) = nodes w"
  "tab_objs (set_cwd pid d w) = tab_objs w"
  "brk (set_cwd pid d w) = brk w"
  "tabs (panels (set_cwd pid d w) q) = tabs (panels w q)"
  "cwd_vpath (panels (set_cwd pid d w) q) = (if q = pid then d else cwd_vpath (panels w q))"
  "current_panel (set_cwd pid d w) = current_panel w"
  "messages (set_cwd pid d w) = messages w"
  by (simp_all add: set_cwd_def)

lemma message_simps [simp]:
  "nodes (message x w) = nodes w"
  "tab_objs (message x w) = tab_objs w"
  "brk (message x w) = brk w"
  "panels (message x w) = panels w"
  "current_panel (message x w) = current_panel w"
  "messages (message x w) = messages w @ [x]"
  by (simp_all add: message_def)

lemma g_new0_simps [simp]:
  "nodes (g_new0 w) = nodes w"
  "tab_objs (g_new0 w) = tab_objs w"
  "brk (g_new0 w) = brk w + 1"
  "panels (g_new0 w) = panels w"
  "current_panel (g_new0 w) = current_panel w"
  "messages (g_new0 w) = messages w"
  by (simp_all add: g_new0_def)

lemma change_panel_simps [simp]:
  "nodes (change_panel w) = nodes w"
  "tab_objs (change_panel w) = tab_objs w"
  "brk (change_panel w) = brk w"
  "panels (change_panel w) = panels w"
  "current_panel (change_panel w) = other_panel w"
  "messages (change_panel w) = messages w"
  by (simp_all add: change_panel_def)

lemma do_panel_cd_simps [simp]:
  "nodes (do_panel_cd env pid pth w) = nodes w"
  "tab_objs (do_panel_cd env pid pth w) = tab_objs w"
  "brk (do_panel_cd env pid pth w) = brk w"
  "tabs (panels (do_panel_cd env pid pth w) q) = tabs (panels w q)"
  "current_panel (do_panel_cd env pid pth w) = current_panel w"
  by (simp_all add: do_panel_cd_def Let_def split: option.splits)

lemma cd_to_tab_simps [simp]:
  "nodes (cd_to_tab env pid t w) = nodes w"
  "tab_objs (cd_to_tab env pid t w) = tab_objs w"
  "brk (cd_to_tab env pid t w) = brk w"
  "tabs (panels (cd_to_tab env pid t w) q) = tabs (panels w q)"
  "current_panel (cd_to_tab env pid t w) = current_panel w"
  by (simp_all add: cd_to_tab_def split: option.splits)

lemma cd_to_tab_messages:
  "messages (cd_to_tab env pid t w) = messages w \<or>
   messages (cd_to_tab env pid t w) = messages w @ [''Cannot read directory contents'']"
  by (simp add: cd_to_tab_def do_panel_cd_def Let_def split: option.splits)

text \<open>Two worlds with the same node heap, allocator and allocated tabs.\<close>

definition same_heap :: "tab_world \<Rightarrow> tab_world \<Rightarrow> bool" where
  "same_heap w w' \<longleftrightarrow>
     nodes w' = nodes w \<and> brk w' = brk w \<and> current_panel w' = current_panel w \<and>
     (\<forall>a. (tab_objs w' a = None) = (tab_objs w a = None))"

lemma same_heap_refl [simp]: "same_heap w w"
  by (simp add: same_heap_def)

lemma same_heap_trans: "same_heap w w' \<Longrightarrow> same_heap w' w'' \<Longrightarrow> same_heap w w''"
  by (simp add: same_heap_def)

lemma same_heap_data_ok:
  assumes "same_heap w w'"
  shows "data_ok w' a = data_ok w a"
proof -
  have n: "node_at w' a = node_at w a" using assms by (simp add: same_heap_def node_at_def)
  have "\<And>g. (tab_at w' g = None) = (tab_at w g = None)"
    using assms by (simp add: same_heap_def tab_at_def)
  then show ?thesis unfolding data_ok_def n by (simp split: option.splits)
qed

lemma data_okE:
  assumes "data_ok w a"
  obtains n t where "a \<noteq> NULL" "nodes w a = Some n" "g_data n \<noteq> NULL"
    "tab_objs w (g_data n) = Some t"
  using assms by (auto simp: data_ok_def node_at_def tab_at_def split: option.splits if_splits)

lemma new_current_set_tab [simp]:
  "new_current (set_tab a t w) ti cn d tab = new_current w ti cn d tab"
  by (simp add: new_current_def node_at_def split: TabsDirection_t.splits)

lemma change_tab_spec:
  assumes cur: "t_current (tabs (panels w pid)) = cur"
    and ok: "data_ok w cur"
    and cn: "nodes w cur = Some cn"
    and nc: "new_current w (tabs (panels w pid)) cn d tab = Some nc"
    and ok': "data_ok w nc"
  shows "\<exists>w'. change_tab env pid d tab w = Some w' \<and> same_heap w w' \<and>
           tabs (panels w' pid) = (tabs (panels w pid))\<lparr>t_current := nc\<rparr> \<and>
           (\<forall>q. q \<noteq> pid \<longrightarrow> tabs (panels w' q) = tabs (panels w q)) \<and>
           (messages w' = messages w \<or>
            messages w' = messages w @ [''Cannot read directory contents''])"
proof -
  from ok cn obtain t where c: "cur \<noteq> NULL" "g_data cn \<noteq> NULL" "tab_objs w (g_data cn) = Some t"
    by (auto elim!: data_okE)
  from ok' obtain nn t' where n: "nc \<noteq> NULL" "nodes w nc = Some nn" "g_data nn \<noteq> NULL"
    "tab_objs w (g_data nn) = Some t'"
    by (auto elim!: data_okE)
  define w2 where "w2 = set_tabs pid ((tabs (panels w pid))\<lparr>t_current := nc\<rparr>)
    (set_tab (g_data cn) (t\<lparr>tab_path := Some (cwd_vpath (panels w pid))\<rparr>) w)"
  obtain t2 where t2: "tab_at w2 (g_data nn) = Some t2"
    using n c by (cases "g_data nn = g_data cn") (auto simp: w2_def tab_at_def)
  have eq: "change_tab env pid d tab w = Some (cd_to_tab env pid t2 w2)"
    using cur c cn nc n t2
    by (simp add: change_tab_def Let_def node_at_def tab_at_def w2_def)
  have m: "messages w2 = messages w" by (simp add: w2_def)
  show ?thesis
    unfolding eq using c cd_to_tab_messages [of env pid t2 w2] m
    by (auto simp: same_heap_def w2_def)
qed


lemma nxt_Some: "nxt h a = Some b \<longleftrightarrow> a \<noteq> NULL \<and> (\<exists>n. h a = Some n \<and> g_next n = b)"
  by (auto simp: nxt_def)

lemma prv_Some: "prv h a = Some b \<longleftrightarrow> a \<noteq> NULL \<and> (\<exists>n. h a = Some n \<and> g_prev n = b)"
  by (auto simp: prv_def)

lemma ring_head_next:
  assumes "ring h (x # y # zs)"
  shows "nxt h x = Some y" and "y \<noteq> x"
  using assms by (auto simp: ring_def linked_def)

text \<open>Unlinking the node \<open>c\<close> between \<open>b\<close> and \<open>d\<close>, as \<open>close_tab\<close> does.\<close>

lemma unlink_heap:
  assumes r: "ring h (c # rest)" and ne: "rest \<noteq> []"
    and b: "h (last rest) = Some nb" and d: "h1 (hd rest) = Some nd"
    and h1: "h1 = h(last rest := Some (nb\<lparr>g_next := hd rest\<rparr>))"
    and h2: "h2 = h1(hd rest := Some (nd\<lparr>g_prev := last rest\<rparr>))"
    and h3: "h3 = h2(c := None)"
  shows "ring h3 rest"
proof (rule ring_unlink [OF r ne])
  have cr: "c \<notin> set rest" using r by (simp add: ring_def)
  have bn: "last rest \<noteq> NULL" and dn: "hd rest \<noteq> NULL"
    using ring_not_NULL [OF r, of "last rest"] ring_not_NULL [OF r, of "hd rest"] ne by simp_all
  have bc: "last rest \<noteq> c" and dc: "hd rest \<noteq> c"
    using cr ne by (metis last_in_set, metis hd_in_set)
  show "nxt h3 (last rest) = Some (hd rest)"
    using bn bc b d by (auto simp: nxt_Some h1 h2 h3)
  show "prv h3 (hd rest) = Some (last rest)"
    using dn dc d by (auto simp: prv_Some h1 h2 h3)
  show "\<forall>x \<in> set rest. x \<noteq> last rest \<longrightarrow> nxt h3 x = nxt h x"
    using cr d by (auto simp: nxt_def h1 h2 h3)
  show "\<forall>x \<in> set rest. x \<noteq> hd rest \<longrightarrow> prv h3 x = prv h x"
    using cr b by (auto simp: prv_def h1 h2 h3)
qed

lemma close_tab_last:
  assumes "ring (nodes w) [t_list (tabs (panels w pid))]"
  shows "close_tab env pid w = Some (message cannot_close_text w)"
  using assms by (auto simp: ring_single nxt_Some close_tab_def Let_def node_at_def)



lemma ring_node:
  assumes "ring h xs" and "a \<in> set xs"
  shows "a \<noteq> NULL" and "\<exists>n. h a = Some n"
proof -
  show n: "a \<noteq> NULL" using assms by (rule ring_not_NULL)
  obtain us vs where "xs = us @ a # vs" using assms(2) by (auto simp: in_set_conv_decomp)
  then have "ring h (a # vs @ us)" using assms(1) ring_rotate [of h us "a # vs"] by simp
  then have "\<exists>b. nxt h a = Some b"
    by (cases "vs @ us") (auto simp: ring_def linked_def)
  then show "\<exists>n. h a = Some n" by (auto simp: nxt_Some)
qed

lemma close_tab_ring:
  assumes r: "ring (nodes w) (us @ c # vs)" and two: "us @ vs \<noteq> []"
    and l: "t_list (tabs (panels w pid)) = hd (us @ c # vs)"
    and cur: "t_current (tabs (panels w pid)) = c"
    and okc: "data_ok w c" and okb: "data_ok w (last (vs @ us))"
  shows "\<exists>w'. close_tab env pid w = Some w' \<and>
           ring (nodes w') (us @ vs) \<and>
           t_list (tabs (panels w' pid)) = hd (us @ vs) \<and>
           t_current (tabs (panels w' pid)) = last (vs @ us) \<and>
           nodes w' c = None \<and>
           (\<exists>cn. nodes w c = Some cn \<and> tab_objs w' (g_data cn) = None) \<and>
           (\<forall>a. a \<notin> set (us @ c # vs) \<longrightarrow> nodes w' a = nodes w a) \<and>
           (\<forall>q. q \<noteq> pid \<longrightarrow> tabs (panels w' q) = tabs (panels w q)) \<and>
           (messages w' = messages w \<or>
            messages w' = messages w @ [''Cannot read directory contents''])"
proof -
  let ?h = "nodes w"
  define rest where "rest = vs @ us"
  define b where "b = last rest"
  define d where "d = hd rest"
  define hd0 where "hd0 = hd (us @ c # vs)"
  have ne: "rest \<noteq> []" using two by (auto simp: rest_def)
  have rc: "ring ?h (c # rest)" using ring_rotate [OF r] by (simp add: rest_def)
  have cr: "c \<notin> set rest" using rc by (simp add: ring_def)
  have bin: "b \<in> set rest" and din: "d \<in> set rest"
    unfolding b_def d_def using last_in_set [OF ne] hd_in_set [OF ne] by blast+
  have bc: "b \<noteq> c" and dc: "d \<noteq> c" using cr bin din by metis+
  have cN: "c \<noteq> NULL" and bN: "b \<noteq> NULL" and dN: "d \<noteq> NULL"
    using ring_not_NULL [OF rc] bin din by simp_all
  obtain cn where cn: "?h c = Some cn" "g_next cn = d" "g_prev cn = b"
    using ring_hd_links(1,2) [OF rc ne] by (auto simp: nxt_Some prv_Some b_def d_def)
  obtain nb where nb: "?h b = Some nb" using ring_node(2) [OF rc, of b] bin by auto
  obtain nd0 where nd0: "?h d = Some nd0" using ring_node(2) [OF rc, of d] din by auto
  \<comment> \<open>the head has a successor other than itself\<close>
  obtain ln where ln: "?h hd0 = Some ln" "g_next ln \<noteq> hd0"
  proof -
    have "\<exists>x y zs. us @ c # vs = x # y # zs"
      using two by (cases us; cases vs; cases "tl us") simp_all
    then obtain x y zs where xs: "us @ c # vs = x # y # zs" by blast
    have "nxt ?h x = Some y" "y \<noteq> x" using ring_head_next [of ?h x y zs] r xs by simp_all
    then show ?thesis using that xs by (auto simp: nxt_Some hd0_def)
  qed
  have "hd (us @ c # vs) \<in> set (us @ c # vs)" by (rule hd_in_set) simp
  then have hN: "hd0 \<noteq> NULL" unfolding hd0_def by (rule ring_not_NULL [OF r])
  have l': "t_list (tabs (panels w pid)) = hd0" using l by (simp add: hd0_def)
  \<comment> \<open>switching to the previous tab\<close>
  have ncur: "new_current w (tabs (panels w pid)) cn TABDIR_PREV NULL = Some b"
    using cn by (simp add: new_current_def)
  have okb': "data_ok w b" using okb by (simp add: b_def rest_def)
  from change_tab_spec [OF cur okc cn(1) ncur okb', of env]
  obtain w1 where w1: "change_tab env pid TABDIR_PREV NULL w = Some w1" "same_heap w w1"
    "tabs (panels w1 pid) = (tabs (panels w pid))\<lparr>t_current := b\<rparr>"
    "\<forall>q. q \<noteq> pid \<longrightarrow> tabs (panels w1 q) = tabs (panels w q)"
    "messages w1 = messages w \<or> messages w1 = messages w @ [''Cannot read directory contents'']"
    by blast
  have h1: "nodes w1 = ?h" using w1(2) by (simp add: same_heap_def)
  \<comment> \<open>the two pointer assignments and the frees\<close>
  define w2 where "w2 = set_node b (nb\<lparr>g_next := d\<rparr>) w1"
  define nd where "nd = (if d = b then nb\<lparr>g_next := d\<rparr> else nd0)"
  have nd: "nodes w2 d = Some nd"
    using nd0 by (simp add: w2_def h1 nd_def)
  define w3 where "w3 = set_node d (nd\<lparr>g_prev := b\<rparr>) w2"
  have c3: "nodes w3 c = Some cn" using cn bc dc by (simp add: w3_def w2_def h1)
  have "data_ok w1 c" using okc same_heap_data_ok [OF w1(2)] by simp
  then obtain t where "tab_at w1 (g_data cn) = Some t"
    using cn(1) by (auto elim!: data_okE simp: h1 tab_at_def)
  then have t: "tab_at w3 (g_data cn) = Some t"
    by (simp add: tab_at_def w3_def w2_def split: if_splits)
  define w5 where "w5 = free_node c (free_tab (g_data cn) w3)"
  define w6 where "w6 = (if c = hd0
      then set_tabs pid ((tabs (panels w5 pid))\<lparr>t_list := d\<rparr>) w5 else w5)"
  have s1: "node_at w hd0 = Some ln" "node_at w c = Some cn" "node_at w1 b = Some nb"
    "node_at w2 d = Some nd" "node_at w3 c = Some cn"
    using ln hN cN cn nb bN dN nd c3 by (simp_all add: node_at_def h1)
  have eq: "close_tab env pid w = Some w6"
    unfolding close_tab_def Let_def l' cur
    using s1 ln(2) cn(2,3) w1(1) t
    by (simp add: destroy_tab_def w2_def [symmetric] w3_def [symmetric])
      (auto simp: w6_def w5_def)
  have n6: "nodes w6 = (nodes w3)(c := None)" by (simp add: w6_def w5_def)
  have "ring (nodes w6) rest"
    unfolding n6
  proof (rule unlink_heap [OF rc ne])
    show "?h (last rest) = Some nb" using nb by (simp add: b_def)
    show "nodes w2 (hd rest) = Some nd" using nd by (simp add: d_def)
    show "nodes w2 = ?h(last rest := Some (nb\<lparr>g_next := hd rest\<rparr>))"
      by (simp add: w2_def h1 b_def d_def)
    show "nodes w3 = (nodes w2)(hd rest := Some (nd\<lparr>g_prev := last rest\<rparr>))"
      by (simp add: w3_def b_def d_def)
  qed simp
  then have ring: "ring (nodes w6) (us @ vs)" unfolding rest_def by (rule ring_rotate)
  have lst: "t_list (tabs (panels w6 pid)) = hd (us @ vs)"
  proof (cases us)
    case Nil
    then show ?thesis using l by (simp add: w6_def hd0_def d_def rest_def)
  next
    case (Cons u us')
    then have "c \<noteq> hd0" using r by (auto simp: ring_def hd0_def)
    then show ?thesis using l w1(3) Cons
      by (simp add: w6_def w5_def w3_def w2_def)
  qed
  have crt: "t_current (tabs (panels w6 pid)) = b"
    using w1(3) by (simp add: w6_def w5_def w3_def w2_def)
  have "\<And>a. a \<notin> set (us @ c # vs) \<Longrightarrow> a \<noteq> b \<and> a \<noteq> d \<and> a \<noteq> c"
    using bin din by (auto simp: rest_def)
  then have frame: "\<forall>a. a \<notin> set (us @ c # vs) \<longrightarrow> nodes w6 a = nodes w a"
    by (simp add: n6 w3_def w2_def h1)
  have others: "\<forall>q. q \<noteq> pid \<longrightarrow> tabs (panels w6 q) = tabs (panels w q)"
    using w1(4) by (simp add: w6_def w5_def w3_def w2_def)
  have msgs: "messages w6 = messages w1" by (simp add: w6_def w5_def w3_def w2_def)
  have freed: "\<exists>cn. nodes w c = Some cn \<and> tab_objs w6 (g_data cn) = None"
    using cn(1) by (simp add: w6_def w5_def)
  show ?thesis
    using eq ring lst crt frame others freed w1(5) unfolding msgs [symmetric]
    by (simp add: n6 b_def rest_def)
qed






















lemma ring_neighbours:
  assumes r: "ring h (us @ c # vs)" and two: "us @ vs \<noteq> []" and cn: "h c = Some cn"
  shows "g_prev cn = last (vs @ us)" "g_next cn = hd (vs @ us)"
proof -
  define rest where "rest = vs @ us"
  have ne: "rest \<noteq> []" using two by (auto simp: rest_def)
  have rc: "ring h (c # rest)" using ring_rotate [OF r] by (simp add: rest_def)
  obtain d rest' where rest: "rest = d # rest'" using ne by (cases rest) auto
  have "linked h c d" using rc by (simp add: ring_def rest)
  then have "nxt h c = Some d" by (simp add: linked_def)
  then show "g_next cn = hd (vs @ us)" using cn by (simp add: nxt_Some rest_def [symmetric] rest)
  have "linked h (last (c # rest)) (hd (c # rest))" using rc by (simp add: ring_def)
  then have "prv h c = Some (last rest)" using ne by (simp add: linked_def)
  then show "g_prev cn = last (vs @ us)" using cn by (simp add: prv_Some rest_def)
qed

lemma ring_head_is:
  assumes "ring h (us @ c # vs)"
  shows "hd (us @ c # vs) = c \<longleftrightarrow> us = []"
proof (cases us)
  case Nil
  then show ?thesis by simp
next
  case (Cons a us')
  have "distinct (us @ c # vs)" using assms by (simp add: ring_def)
  then have "a \<noteq> c" using Cons by auto
  then show ?thesis using Cons by simp
qed

text \<open>
  Claim C7. Let the ring of a panel be \<open>us @ c # vs\<close> with more than one member, \<open>c\<close> the
  current tab. Then \<open>close_tab\<close> returns; the current tab is now the previous member
  (\<open>c->prev\<close>, the last of \<open>vs @ us\<close>); the node \<open>c\<close> and its \<open>Tab\<close> are freed and the ring is
  \<open>us @ vs\<close>; the head pointer is \<open>c->next\<close> if \<open>c\<close> was the head and is unchanged otherwise.
  On a ring of one member, \<open>close_tab\<close> only reports the error.
\<close>

theorem close_tab_unlinks:
  "(ring (nodes w) (us @ c # vs) \<and> us @ vs \<noteq> [] \<and>
    t_list (tabs (panels w pid)) = hd (us @ c # vs) \<and> t_current (tabs (panels w pid)) = c \<and>
    data_ok w c \<and> data_ok w (last (vs @ us)) \<longrightarrow>
    (\<exists>w' cn. close_tab env pid w = Some w' \<and> nodes w c = Some cn \<and>
       t_current (tabs (panels w' pid)) = g_prev cn \<and> g_prev cn = last (vs @ us) \<and>
       nodes w' c = None \<and> tab_objs w' (g_data cn) = None \<and>
       ring (nodes w') (us @ vs) \<and>
       t_list (tabs (panels w' pid)) = hd (us @ vs) \<and>
       t_list (tabs (panels w' pid))
         = (if t_list (tabs (panels w pid)) = c then g_next cn else t_list (tabs (panels w pid))) \<and>
       cannot_close_text \<notin> set (messages w') - set (messages w))) \<and>
   (ring (nodes w) [t_list (tabs (panels w pid))] \<longrightarrow>
      close_tab env pid w = Some (message cannot_close_text w) \<and>
      messages (message cannot_close_text w) = messages w @ [cannot_close_text])"
proof (intro conjI impI)
  assume a: "ring (nodes w) (us @ c # vs) \<and> us @ vs \<noteq> [] \<and>
    t_list (tabs (panels w pid)) = hd (us @ c # vs) \<and> t_current (tabs (panels w pid)) = c \<and>
    data_ok w c \<and> data_ok w (last (vs @ us))"
  then have r: "ring (nodes w) (us @ c # vs)" and two: "us @ vs \<noteq> []"
    and l: "t_list (tabs (panels w pid)) = hd (us @ c # vs)"
    and cur: "t_current (tabs (panels w pid)) = c"
    and okc: "data_ok w c" and okb: "data_ok w (last (vs @ us))"
    by simp_all
  from close_tab_ring [OF r two l cur okc okb, of env]
  obtain w' cn where w': "close_tab env pid w = Some w'" "ring (nodes w') (us @ vs)"
    "t_list (tabs (panels w' pid)) = hd (us @ vs)"
    "t_current (tabs (panels w' pid)) = last (vs @ us)"
    "nodes w' c = None" "nodes w c = Some cn" "tab_objs w' (g_data cn) = None"
    "messages w' = messages w \<or> messages w' = messages w @ [''Cannot read directory contents'']"
    by blast
  note nb = ring_neighbours [OF r two w'(6)]
  have hd_eq: "hd (us @ vs) = (if hd (us @ c # vs) = c then g_next cn else hd (us @ c # vs))"
  proof (cases us)
    case Nil
    then show ?thesis using nb(2) by simp
  next
    case (Cons a us')
    then have "hd (us @ c # vs) \<noteq> c" using ring_head_is [OF r] by simp
    then show ?thesis using Cons by simp
  qed
  have msg: "cannot_close_text \<notin> set (messages w') - set (messages w)"
    using w'(8) by (auto simp: cannot_close_text_def)
  show "\<exists>w' cn. close_tab env pid w = Some w' \<and> nodes w c = Some cn \<and>
       t_current (tabs (panels w' pid)) = g_prev cn \<and> g_prev cn = last (vs @ us) \<and>
       nodes w' c = None \<and> tab_objs w' (g_data cn) = None \<and>
       ring (nodes w') (us @ vs) \<and>
       t_list (tabs (panels w' pid)) = hd (us @ vs) \<and>
       t_list (tabs (panels w' pid))
         = (if t_list (tabs (panels w pid)) = c then g_next cn else t_list (tabs (panels w pid))) \<and>
       cannot_close_text \<notin> set (messages w') - set (messages w)"
    using w'(1-7) nb(1) hd_eq msg unfolding l by (intro exI [of _ w'] exI [of _ cn]) simp
next
  assume "ring (nodes w) [t_list (tabs (panels w pid))]"
  then show "close_tab env pid w = Some (message cannot_close_text w)"
    by (rule close_tab_last)
next
  show "messages (message cannot_close_text w) = messages w @ [cannot_close_text]" by simp
qed

text \<open>
  The scenario: panel A holds the tabs \<open>A\<close>, \<open>B\<close>, \<open>C\<close> in the nodes 1, 2, 3, with \<open>B\<close>
  current; panel B holds the single tab \<open>D\<close> in node 4.
\<close>

definition tab_nodes0 :: "addr \<Rightarrow> GList option" where
  "tab_nodes0 = map_of
     [(1, \<lparr>g_data = 11, g_next = 2, g_prev = 3\<rparr>),
      (2, \<lparr>g_data = 12, g_next = 3, g_prev = 1\<rparr>),
      (3, \<lparr>g_data = 13, g_next = 1, g_prev = 2\<rparr>),
      (4, \<lparr>g_data = 14, g_next = 4, g_prev = 4\<rparr>)]"

definition tab_objs0 :: "addr \<Rightarrow> Tab option" where
  "tab_objs0 = map_of
     [(11, \<lparr>tab_name = Some ''A'', tab_path = Some ''/a''\<rparr>),
      (12, \<lparr>tab_name = Some ''B'', tab_path = Some ''/b''\<rparr>),
      (13, \<lparr>tab_name = Some ''C'', tab_path = Some ''/c''\<rparr>),
      (14, \<lparr>tab_name = Some ''D'', tab_path = Some ''/d''\<rparr>)]"

definition tab_panels0 :: "panel_id \<Rightarrow> tab_panel" where
  "tab_panels0 pid =
     (case pid of
        PanelA \<Rightarrow> \<lparr>tabs = \<lparr>t_list = 1, t_current = 2, do_not_delete = 0\<rparr>, cwd_vpath = ''/b''\<rparr>
      | PanelB \<Rightarrow> \<lparr>tabs = \<lparr>t_list = 4, t_current = 4, do_not_delete = 0\<rparr>, cwd_vpath = ''/d''\<rparr>)"

definition tab_world0 :: tab_world where
  "tab_world0 = \<lparr>nodes = tab_nodes0, tab_objs = tab_objs0, brk = 20, panels = tab_panels0,
     current_panel = PanelA, messages = []\<rparr>"

definition tab_env0 :: tab_env where
  "tab_env0 = \<lparr>mc_chdir = Some, dir_list_load = (\<lambda>d. True), open_where = AT_END\<rparr>"

text \<open>What a world shows of a panel: the names of the tabs from the head on, and the
  name of the current tab.\<close>

definition name_at :: "tab_world \<Rightarrow> addr \<Rightarrow> string option" where
  "name_at w a = do { n \<leftarrow> node_at w a; t \<leftarrow> tab_at w (g_data n); tab_name t }"

lemma close_scenario_pre:
  "ring (nodes tab_world0) ([1] @ 2 # [3]) \<and> [1] @ [3] \<noteq> ([] :: addr list) \<and>
   t_list (tabs (panels tab_world0 PanelA)) = hd ([1] @ 2 # [3]) \<and>
   t_current (tabs (panels tab_world0 PanelA)) = 2 \<and>
   data_ok tab_world0 2 \<and> data_ok tab_world0 (last ([3] @ [1]))"
  by code_simp

lemma close_scenario_names:
  "map (name_at tab_world0) [1, 2, 3] = [Some ''A'', Some ''B'', Some ''C''] \<and>
   name_at tab_world0 (t_current (tabs (panels tab_world0 PanelA))) = Some ''B''"
  by code_simp

lemma close_scenario_run:
  "map_option (\<lambda>w'. (ring (nodes w') [1, 3], map (name_at w') [1, 3],
       name_at w' (t_current (tabs (panels w' PanelA))), t_list (tabs (panels w' PanelA)),
       nodes w' 2, tab_objs w' 12, messages w'))
     (close_tab tab_env0 PanelA tab_world0)
   = Some (True, [Some ''A'', Some ''C''], Some ''A'', 1, None, None, [])"
  by code_simp

lemma close_scenario_last:
  "ring (nodes tab_world0) [t_list (tabs (panels tab_world0 PanelB))]"
  by code_simp

theorem close_tab_unlinks_witness:
  "(ring (nodes tab_world0) ([1] @ 2 # [3]) \<and> [1] @ [3] \<noteq> ([] :: addr list) \<and>
    t_list (tabs (panels tab_world0 PanelA)) = hd ([1] @ 2 # [3]) \<and>
    t_current (tabs (panels tab_world0 PanelA)) = 2 \<and>
    data_ok tab_world0 2 \<and> data_ok tab_world0 (last ([3] @ [1]))) \<and>
   map (name_at tab_world0) [1, 2, 3] = [Some ''A'', Some ''B'', Some ''C''] \<and>
   name_at tab_world0 (t_current (tabs (panels tab_world0 PanelA))) = Some ''B'' \<and>
   (\<exists>w'. close_tab tab_env0 PanelA tab_world0 = Some w' \<and>
      ring (nodes w') [1, 3] \<and> map (name_at w') [1, 3] = [Some ''A'', Some ''C''] \<and>
      name_at w' (t_current (tabs (panels w' PanelA))) = Some ''A'' \<and>
      t_current (tabs (panels w' PanelA)) = 1 \<and>
      t_list (tabs (panels w' PanelA)) = 1 \<and> nodes w' 2 = None) \<and>
   ring (nodes tab_world0) [t_list (tabs (panels tab_world0 PanelB))] \<and>
   close_tab tab_env0 PanelB tab_world0 = Some (message cannot_close_text tab_world0)"
  using close_tab_unlinks [of tab_world0 "[1]" 2 "[3]" PanelA tab_env0]
    close_tab_unlinks [of tab_world0 "[]" 4 "[]" PanelB tab_env0]
    close_scenario_pre close_scenario_names close_scenario_run close_scenario_last
  by auto


text \<open>
  The same two panels with the focus on panel B, whose ring is the single tab \<open>D\<close>.
\<close>

definition tab_world1 :: tab_world where
  "tab_world1 = tab_world0\<lparr>current_panel := PanelB\<rparr>"


lemma last_tab_run:
  "map_option (\<lambda>w'. (map (nodes w') [1, 2, 3, 4], map (tabs \<circ> panels w') [PanelA, PanelB],
        messages w')) (close_tab tab_env0 PanelB tab_world1)
     = Some (map (nodes tab_world1) [1, 2, 3, 4], map (tabs \<circ> panels tab_world1) [PanelA, PanelB],
        [cannot_close_text])"
  "map_option (\<lambda>w'. (map (nodes w') [1, 2, 3, 4], map (tabs \<circ> panels w') [PanelA, PanelB],
        messages w')) (move_tab_to_other_panel tab_env0 tab_world1)
     = Some (map (nodes tab_world1) [1, 2, 3, 4], map (tabs \<circ> panels tab_world1) [PanelA, PanelB],
        [cannot_move_text])"
  by code_simp+


lemma move_scenario_run:
  "map_option (\<lambda>w'. (ring (nodes w') [1, 3], ring (nodes w') [4, 20],
        map (name_at w') [1, 3], map (name_at w') [4, 20],
        map (tabs \<circ> panels w') [PanelA, PanelB], current_panel w', messages w'))
     (move_tab_to_other_panel tab_env0 tab_world0)
     = Some (True, True, [Some ''A'', Some ''C''], [Some ''D'', Some ''B''],
        [\<lparr>t_list = 1, t_current = 1, do_not_delete = 0\<rparr>,
         \<lparr>t_list = 4, t_current = 20, do_not_delete = 0\<rparr>], PanelB, [])"
  by code_simp



section \<open>Tab sessions: restoring from a session file\<close>

text \<open>
  The stream \<open>FILE\<close>: the characters not yet read and the end-of-file indicator, which a
  read sets when it runs into the end of the input. The session file is a text file; the
  characters read into a buffer are the C string in the buffer.
\<close>

record FILE =
  f_rest :: string
  f_eof :: bool

definition fopen :: "string \<Rightarrow> FILE" where
  "fopen text = \<lparr>f_rest = text, f_eof = False\<rparr>"

definition LF :: char where
  "LF = CHR 0x0A"

text \<open>
  \<open>fgets (line, max, f)\<close> reads up to \<open>max - 1\<close> characters and stops after a newline;
  it returns \<open>NULL\<close>, leaving the buffer as it is, when the input has ended.
\<close>

definition fgets :: "nat \<Rightarrow> FILE \<Rightarrow> string option \<times> FILE" where
  "fgets n f =
     (if f_rest f = [] then (None, f\<lparr>f_eof := True\<rparr>)
      else
        let l = takeWhile (\<lambda>c. c \<noteq> LF) (take (n - 1) (f_rest f)) in
        if length l = n - 1 then (Some l, f\<lparr>f_rest := drop (n - 1) (f_rest f)\<rparr>)
        else if length l = length (f_rest f) then (Some l, f\<lparr>f_rest := [], f_eof := True\<rparr>)
        else (Some (l @ [LF]), f\<lparr>f_rest := drop (length l + 1) (f_rest f)\<rparr>))"

text \<open>\<open>read_line\<close>: the buffer keeps its old content when \<open>fgets\<close> returns \<open>NULL\<close>.\<close>

definition read_line :: "string \<Rightarrow> FILE \<Rightarrow> string \<times> FILE" where
  "read_line line f =
     (case fgets 1024 f of
        (None, f') \<Rightarrow> (line, f')
      | (Some b, f') \<Rightarrow> (if last b = LF then butlast b else b, f'))"

text \<open>
  \<open>fscanf (f, "%d\n%d\n", &result.idx, &crt_idx)\<close>. White space in the format and before
  a number skips any white space of the input; \<open>%d\<close> takes an optional sign and the
  digits that follow. A number that does not fit an \<open>int\<close> is undefined behaviour, \<open>None\<close>.
  The result is the number of items assigned (\<open>- 1\<close> for \<open>EOF\<close>) with the values assigned.
\<close>

definition isspace :: "char \<Rightarrow> bool" where
  "isspace c \<longleftrightarrow> c \<in> set [CHR 0x20, CHR 0x09, CHR 0x0A, CHR 0x0B, CHR 0x0C, CHR 0x0D]"

definition isdigit :: "char \<Rightarrow> bool" where
  "isdigit c \<longleftrightarrow> c \<in> set ''0123456789''"

definition digit_val :: "char \<Rightarrow> int" where
  "digit_val c = int (of_char c) - 48"

definition dec :: "string \<Rightarrow> int" where
  "dec ds = foldl (\<lambda>v c. 10 * v + digit_val c) 0 ds"

definition skip_space :: "FILE \<Rightarrow> FILE" where
  "skip_space f =
     (let r = dropWhile isspace (f_rest f) in f\<lparr>f_rest := r, f_eof := f_eof f \<or> r = []\<rparr>)"

datatype scan = Converted int FILE | MatchFailure FILE | InputFailure FILE

definition scan_d :: "FILE \<Rightarrow> scan" where
  "scan_d f0 =
     (let f = skip_space f0 in
      if f_rest f = [] then InputFailure f
      else
        let c = hd (f_rest f);
            r1 = (if c = CHR ''-'' \<or> c = CHR ''+'' then tl (f_rest f) else f_rest f);
            ds = takeWhile isdigit r1;
            r2 = dropWhile isdigit r1
        in if ds = [] then MatchFailure (f\<lparr>f_rest := r1, f_eof := f_eof f \<or> r1 = []\<rparr>)
           else Converted ((if c = CHR ''-'' then - 1 else 1) * dec ds)
                  (f\<lparr>f_rest := r2, f_eof := f_eof f \<or> r2 = []\<rparr>))"

definition in_int :: "int \<Rightarrow> bool" where
  "in_int v \<longleftrightarrow> - (2 ^ 31) \<le> v \<and> v < 2 ^ 31"

definition fscanf_d_d :: "FILE \<Rightarrow> (int \<times> int option \<times> int option \<times> FILE) option" where
  "fscanf_d_d f =
     (case scan_d f of
        InputFailure f1 \<Rightarrow> Some (- 1, None, None, f1)
      | MatchFailure f1 \<Rightarrow> Some (0, None, None, f1)
      | Converted a f1 \<Rightarrow>
          (if \<not> in_int a then None
           else (case scan_d (skip_space f1) of
                   InputFailure f2 \<Rightarrow> Some (1, Some a, None, f2)
                 | MatchFailure f2 \<Rightarrow> Some (1, Some a, None, f2)
                 | Converted b f2 \<Rightarrow>
                     (if \<not> in_int b then None else Some (2, Some a, Some b, skip_space f2)))))"

text \<open>
  \<open>RestoredTabs\<close>. The ring that \<open>_restore_tabs\<close> links is represented by the list of its
  tabs from the head on (\<open>[]\<close> for \<open>NULL\<close>); \<open>current\<close> is the position of the node that
  \<open>result.current\<close> points to, \<open>None\<close> as long as the field has not been assigned.
\<close>

record session_tab =
  s_name :: "string option"
  s_path :: string

record RestoredTabs =
  r_list :: "session_tab list"
  r_current :: "nat option"
  r_idx :: "int option"
  r_error :: int

lemma read_line_le:
  "length (f_rest (snd (read_line line f))) \<le> length (f_rest f)"
  by (auto simp: read_line_def fgets_def Let_def split: if_splits)

lemma read_line_eof:
  "f_eof f \<Longrightarrow> f_eof (snd (read_line line f))"
  by (auto simp: read_line_def fgets_def Let_def split: if_splits)

lemma read_line_less:
  "\<not> f_eof (snd (read_line line f)) \<Longrightarrow> length (f_rest (snd (read_line line f))) < length (f_rest f)"
  by (auto simp: read_line_def fgets_def Let_def split: if_splits)

text \<open>
  The \<open>do ... while (!feof (f) && strcmp (line, "") && !result.error)\<close> loop of
  \<open>_restore_tabs\<close>. The condition can only hold after a tab has been read, so the loop
  is entered again from that branch only.
\<close>

function restore_loop :: "int \<Rightarrow> int \<Rightarrow> string \<Rightarrow> RestoredTabs \<Rightarrow> FILE \<Rightarrow> RestoredTabs \<times> FILE" where
  "restore_loop crt_idx idx line result f =
     (if fst (read_line line f) \<noteq> [] \<and> \<not> f_eof (snd (read_line line f)) then
        (if fst (read_line (fst (read_line line f)) (snd (read_line line f))) = []
         then (result\<lparr>r_error := 1\<rparr>, snd (read_line (fst (read_line line f)) (snd (read_line line f))))
         else
           (if \<not> f_eof (snd (read_line (fst (read_line line f)) (snd (read_line line f))))
            then restore_loop crt_idx (idx + 1)
                   (fst (read_line (fst (read_line line f)) (snd (read_line line f))))
                   (result\<lparr>r_list := r_list result @
                        [\<lparr>s_name = (if fst (read_line line f) = ''(null)'' then None
                                     else Some (fst (read_line line f))),
                          s_path = fst (read_line (fst (read_line line f)) (snd (read_line line f)))\<rparr>],
                      r_current := (if idx = crt_idx then Some (length (r_list result))
                                    else r_current result)\<rparr>)
                   (snd (read_line (fst (read_line line f)) (snd (read_line line f))))
            else (result\<lparr>r_list := r_list result @
                        [\<lparr>s_name = (if fst (read_line line f) = ''(null)'' then None
                                     else Some (fst (read_line line f))),
                          s_path = fst (read_line (fst (read_line line f)) (snd (read_line line f)))\<rparr>],
                      r_current := (if idx = crt_idx then Some (length (r_list result))
                                    else r_current result)\<rparr>,
                  snd (read_line (fst (read_line line f)) (snd (read_line line f))))))
      else (result, snd (read_line line f)))"
  by pat_completeness auto

termination
proof (relation "measure (\<lambda>(crt_idx, idx, line, result, f). length (f_rest f))", goal_cases)
  case 1
  show ?case by simp
next
  case (2 crt_idx idx line result f)
  have "length (f_rest (snd (read_line (fst (read_line line f)) (snd (read_line line f)))))
      < length (f_rest (snd (read_line line f)))"
    using 2 by (intro read_line_less) simp
  also have "\<dots> \<le> length (f_rest f)" by (rule read_line_le)
  finally show ?case by simp
qed


declare restore_loop.simps [simp del]

text \<open>
  \<open>_restore_tabs\<close>. When \<open>fscanf\<close> has not assigned both numbers, or the second one is
  \<open>-1\<close>, the result is the empty one: no list and no error.
\<close>

definition restore_tabs :: "FILE \<Rightarrow> (RestoredTabs \<times> FILE) option" where
  "restore_tabs f =
     (case fscanf_d_d f of
        None \<Rightarrow> None
      | Some (items_read, idx, crt_idx, f1) \<Rightarrow>
          (if crt_idx = Some (- 1) \<or> items_read \<noteq> 2
           then Some (\<lparr>r_list = [], r_current = None, r_idx = idx, r_error = 0\<rparr>, f1)
           else Some (restore_loop (the crt_idx) 0 []
                        \<lparr>r_list = [], r_current = None, r_idx = idx, r_error = 0\<rparr> f1)))"

text \<open>
  A panel as the restore sees it: the tabs of its ring from the head on, the position of
  the current one, and the working directory. The world holds the current and the other
  panel and the error messages shown.
\<close>

record session_panel =
  p_tabs :: "session_tab list"
  p_current :: nat
  p_cwd :: string

record session_world =
  current_p :: session_panel
  other_p :: session_panel
  s_messages :: "string list"

text \<open>
  From outside panel.c: the text of the session file (\<open>None\<close> when \<open>exist_file\<close> fails),
  whether each panel is a listing view, and \<open>mc_chdir\<close> and \<open>dir_list_load\<close> as before.
\<close>

record session_env = tab_env +
  session_file :: "string option"
  current_listing :: bool
  other_listing :: bool

text \<open>\<open>abort_restore\<close> frees the restored ring and shows the error.\<close>

definition restore_error_text :: string where
  "restore_error_text = ''Error restoring the tabs.''"

definition abort_restore :: "session_world \<Rightarrow> session_world" where
  "abort_restore w = w\<lparr>s_messages := s_messages w @ [restore_error_text]\<rparr>"

text \<open>
  The block \<open>destroy_tabs (panel); panel->tabs.list = restored.list;
  panel->tabs.current = restored.current; t = panel->tabs.current->data;
  do_panel_cd (panel, t->path, cd_exact);\<close>. Following a \<open>current\<close> that was never assigned
  is undefined behaviour.
\<close>

definition session_cd ::
  "session_env \<Rightarrow> string \<Rightarrow> session_panel \<times> string list \<Rightarrow> session_panel \<times> string list" where
  "session_cd env pth pm =
     (case mc_chdir env pth of
        None \<Rightarrow> pm
      | Some d \<Rightarrow> ((fst pm)\<lparr>p_cwd := d\<rparr>,
                   if dir_list_load env d then snd pm
                   else snd pm @ [''Cannot read directory contents'']))"

definition replace_tabs ::
  "session_env \<Rightarrow> RestoredTabs \<Rightarrow> session_panel \<times> string list
     \<Rightarrow> (session_panel \<times> string list) option" where
  "replace_tabs env restored pm =
     (case r_current restored of
        None \<Rightarrow> None
      | Some i \<Rightarrow>
          Some (session_cd env (s_path (r_list restored ! i))
                  ((fst pm)\<lparr>p_tabs := r_list restored, p_current := i\<rparr>, snd pm)))"

definition current_header :: string where
  "current_header = ''[Current Panel]''"

definition other_header :: string where
  "other_header = ''[Other Panel]''"

definition restore_tabs_session :: "session_env \<Rightarrow> session_world \<Rightarrow> session_world option" where
  "restore_tabs_session env w =
     (case session_file env of
        None \<Rightarrow> Some w
      | Some text \<Rightarrow>
          (let l0 = read_line [] (fopen text) in
           if fst l0 \<noteq> current_header then Some (abort_restore w)
           else (case restore_tabs (snd l0) of
                   None \<Rightarrow> None
                 | Some (restored1, f2) \<Rightarrow>
                     (if r_error restored1 \<noteq> 0 then Some (abort_restore w)
                      else
                        let l1 = read_line (fst l0) f2 in
                        if fst l1 \<noteq> other_header then Some (abort_restore w)
                        else (case restore_tabs (snd l1) of
                                None \<Rightarrow> None
                              | Some (restored2, f4) \<Rightarrow>
                                  (if r_error restored2 \<noteq> 0
                                   then Some (abort_restore (abort_restore w))
                                   else
                                     (case (if r_list restored1 \<noteq> [] \<and> current_listing env
                                            then replace_tabs env restored1 (current_p w, s_messages w)
                                            else Some (current_p w, s_messages w)) of
                                        None \<Rightarrow> None
                                      | Some (cp, m1) \<Rightarrow>
                                          (case (if r_list restored2 \<noteq> [] \<and> other_listing env
                                                 then replace_tabs env restored2 (other_p w, m1)
                                                 else Some (other_p w, m1)) of
                                             None \<Rightarrow> None
                                           | Some (op, m2) \<Rightarrow>
                                               Some \<lparr>current_p = cp, other_p = op,
                                                      s_messages = m2\<rparr>))))))))"

definition session_env0 :: "string \<Rightarrow> session_env" where
  "session_env0 text = \<lparr>mc_chdir = Some, dir_list_load = (\<lambda>d. True), open_where = AT_END,
     session_file = Some text, current_listing = True, other_listing = True\<rparr>"

definition session_world0 :: session_world where
  "session_world0 =
     \<lparr>current_p = \<lparr>p_tabs = [\<lparr>s_name = None, s_path = ''/etc''\<rparr>], p_current = 0, p_cwd = ''/etc''\<rparr>,
      other_p = \<lparr>p_tabs = [\<lparr>s_name = None, s_path = ''/usr''\<rparr>], p_current = 0, p_cwd = ''/usr''\<rparr>,
      s_messages = []\<rparr>"

definition text_lines :: "string list \<Rightarrow> string" where
  "text_lines ls = concat (map (\<lambda>l. l @ [LF]) ls)"


definition session_file_a :: string where
  "session_file_a = text_lines [''[Current Panel]'', ''0'', ''0'', ''home'', [],
     ''[Other Panel]'', ''1'', ''0'', ''work'', ''/srv'']"

definition session_file_b :: string where
  "session_file_b = text_lines [''[Current Panel]'', ''0'', ''0'', ''home'', ''/home'', [],
     ''[Other Panel]'', ''1'', ''0'', ''work'', []]"

definition session_file_c :: string where
  "session_file_c = text_lines [''[Current Panel]'', ''0'', ''0'', ''home'', ''/home'', [],
     ''[Other Panel]'', ''1'', ''0'', ''work'', ''/srv'']"

text \<open>
  Claim C6, as amended. The four checks of \<open>restore_tabs_session\<close> are the header line of
  the current panel's section, the error flag of its \<open>_restore_tabs\<close>, the header line of
  the other panel's section and the error flag of its \<open>_restore_tabs\<close>. When any of them
  fails, the restore is aborted as a whole: it returns, neither panel is changed, whatever
  the other section holds, and the error is shown (twice when it is the other panel's
  tabs that fail).
\<close>

theorem restore_all_or_nothing:
  assumes sf: "session_file env = Some content"
    and l0: "read_line [] (fopen content) = (h1, f1)"
    and r1: "h1 = current_header \<longrightarrow> restore_tabs f1 = Some (restored1, f2)"
    and l1: "read_line h1 f2 = (h2, f3)"
    and r2: "h1 = current_header \<and> r_error restored1 = 0 \<and> h2 = other_header \<longrightarrow>
             restore_tabs f3 = Some (restored2, f4)"
    and failure: "h1 \<noteq> current_header \<or> r_error restored1 \<noteq> 0 \<or>
                  h2 \<noteq> other_header \<or> r_error restored2 \<noteq> 0"
  shows "\<exists>w'. restore_tabs_session env w = Some w' \<and>
           current_p w' = current_p w \<and> other_p w' = other_p w \<and>
           (s_messages w' = s_messages w @ [restore_error_text] \<or>
            s_messages w' = s_messages w @ [restore_error_text, restore_error_text])"
proof -
  have "restore_tabs_session env w = Some (abort_restore w) \<or>
        restore_tabs_session env w = Some (abort_restore (abort_restore w))"
  proof (cases "h1 = current_header")
    case False
    then show ?thesis using sf l0 by (simp add: restore_tabs_session_def Let_def)
  next
    case h1: True
    then have r1': "restore_tabs f1 = Some (restored1, f2)" using r1 by simp
    show ?thesis
    proof (cases "r_error restored1 = 0")
      case False
      then show ?thesis using sf l0 h1 r1' by (simp add: restore_tabs_session_def Let_def)
    next
      case e1: True
      show ?thesis
      proof (cases "h2 = other_header")
        case False
        then show ?thesis using sf l0 h1 r1' e1 l1
          by (simp add: restore_tabs_session_def Let_def)
      next
        case h2: True
        then have r2': "restore_tabs f3 = Some (restored2, f4)" using r2 h1 e1 by simp
        have "r_error restored2 \<noteq> 0" using failure h1 e1 h2 by simp
        then show ?thesis using sf l0 h1 r1' e1 l1 h2 r2'
          by (simp add: restore_tabs_session_def Let_def)
      qed
    qed
  qed
  then show ?thesis by (auto simp: abort_restore_def)
qed

text \<open>
  A file whose current panel's section is valid and whose other panel's section has a
  tab name without a path.
\<close>

lemma session_file_b_steps:
  "session_file (session_env0 session_file_b) = Some session_file_b"
  "read_line [] (fopen session_file_b) =
     (current_header, fopen (text_lines [''0'', ''0'', ''home'', ''/home'', [],
        ''[Other Panel]'', ''1'', ''0'', ''work'', []]))"
  "restore_tabs (fopen (text_lines [''0'', ''0'', ''home'', ''/home'', [],
        ''[Other Panel]'', ''1'', ''0'', ''work'', []])) =
     Some (\<lparr>r_list = [\<lparr>s_name = Some ''home'', s_path = ''/home''\<rparr>], r_current = Some 0,
             r_idx = Some 0, r_error = 0\<rparr>,
           fopen (text_lines [''[Other Panel]'', ''1'', ''0'', ''work'', []]))"
  "read_line current_header (fopen (text_lines [''[Other Panel]'', ''1'', ''0'', ''work'', []])) =
     (other_header, fopen (text_lines [''1'', ''0'', ''work'', []]))"
  "restore_tabs (fopen (text_lines [''1'', ''0'', ''work'', []])) =
     Some (\<lparr>r_list = [], r_current = None, r_idx = Some 1, r_error = 1\<rparr>, fopen [])"
  by code_simp+

theorem restore_all_or_nothing_witness:
  "session_file (session_env0 session_file_b) = Some session_file_b \<and>
   read_line [] (fopen session_file_b) =
     (current_header, fopen (text_lines [''0'', ''0'', ''home'', ''/home'', [],
        ''[Other Panel]'', ''1'', ''0'', ''work'', []])) \<and>
   restore_tabs (fopen (text_lines [''0'', ''0'', ''home'', ''/home'', [],
        ''[Other Panel]'', ''1'', ''0'', ''work'', []])) =
     Some (\<lparr>r_list = [\<lparr>s_name = Some ''home'', s_path = ''/home''\<rparr>], r_current = Some 0,
             r_idx = Some 0, r_error = 0\<rparr>,
           fopen (text_lines [''[Other Panel]'', ''1'', ''0'', ''work'', []])) \<and>
   read_line current_header (fopen (text_lines [''[Other Panel]'', ''1'', ''0'', ''work'', []])) =
     (other_header, fopen (text_lines [''1'', ''0'', ''work'', []])) \<and>
   restore_tabs (fopen (text_lines [''1'', ''0'', ''work'', []])) =
     Some (\<lparr>r_list = [], r_current = None, r_idx = Some 1, r_error = 1\<rparr>, fopen []) \<and>
   (\<exists>w'. restore_tabs_session (session_env0 session_file_b) session_world0 = Some w' \<and>
      current_p w' = current_p session_world0 \<and> other_p w' = other_p session_world0 \<and>
      (s_messages w' = s_messages session_world0 @ [restore_error_text] \<or>
       s_messages w' = s_messages session_world0 @ [restore_error_text, restore_error_text]))"
proof -
  have "\<exists>w'. restore_tabs_session (session_env0 session_file_b) session_world0 = Some w' \<and>
      current_p w' = current_p session_world0 \<and> other_p w' = other_p session_world0 \<and>
      (s_messages w' = s_messages session_world0 @ [restore_error_text] \<or>
       s_messages w' = s_messages session_world0 @ [restore_error_text, restore_error_text])"
    using restore_all_or_nothing [where env = "session_env0 session_file_b"
        and content = session_file_b and w = session_world0
        and ?h1.0 = current_header and ?h2.0 = other_header
        and ?f1.0 = "fopen (text_lines [''0'', ''0'', ''home'', ''/home'', [],
           ''[Other Panel]'', ''1'', ''0'', ''work'', []])"
        and ?restored1.0 = "\<lparr>r_list = [\<lparr>s_name = Some ''home'', s_path = ''/home''\<rparr>],
           r_current = Some 0, r_idx = Some 0, r_error = 0\<rparr>"
        and ?f2.0 = "fopen (text_lines [''[Other Panel]'', ''1'', ''0'', ''work'', []])"
        and ?f3.0 = "fopen (text_lines [''1'', ''0'', ''work'', []])"
        and ?restored2.0 = "\<lparr>r_list = [], r_current = None, r_idx = Some 1, r_error = 1\<rparr>"
        and ?f4.0 = "fopen []"]
      session_file_b_steps
    by simp
  then show ?thesis using session_file_b_steps by blast
qed

text \<open>
  Claim C6 as stated fails. The files \<open>session_file_a\<close> and \<open>session_file_c\<close> have the same
  other panel's section, and restoring \<open>session_file_c\<close> replaces both rings. In
  \<open>session_file_a\<close> the tab of the current panel's section has no path: the other panel's
  ring is not replaced. \<open>session_file_b\<close> has the current panel's section of
  \<open>session_file_c\<close> and a tab without a path in the other panel's section: the current
  panel's ring is not replaced.
\<close>

theorem restore_all_or_nothing_counterexample:
  "restore_tabs_session (session_env0 session_file_c) session_world0 =
     Some \<lparr>current_p = \<lparr>p_tabs = [\<lparr>s_name = Some ''home'', s_path = ''/home''\<rparr>],
                           p_current = 0, p_cwd = ''/home''\<rparr>,
           other_p = \<lparr>p_tabs = [\<lparr>s_name = Some ''work'', s_path = ''/srv''\<rparr>],
                       p_current = 0, p_cwd = ''/srv''\<rparr>,
           s_messages = []\<rparr> \<and>
   restore_tabs_session (session_env0 session_file_a) session_world0 =
     Some (session_world0\<lparr>s_messages := [restore_error_text]\<rparr>) \<and>
   restore_tabs_session (session_env0 session_file_b) session_world0 =
     Some (session_world0\<lparr>s_messages := [restore_error_text, restore_error_text]\<rparr>) \<and>
   p_tabs (other_p session_world0) \<noteq> [\<lparr>s_name = Some ''work'', s_path = ''/srv''\<rparr>] \<and>
   p_tabs (current_p session_world0) \<noteq> [\<lparr>s_name = Some ''home'', s_path = ''/home''\<rparr>]"
  by code_simp

section \<open>Incremental search\<close>






















end
